theory Spec2Isabelle
  imports Complex_Main "HOL-Library.Word"
begin

section \<open>Framed connection (src/src/connection.ts)\<close>

text \<open>
  A \<open>Buffer\<close> is a list of bytes. A JavaScript \<open>Error\<close> is its message. Every call of
  \<open>sendCommand\<close> or \<open>sendPipelineCommands\<close> creates promises; a promise is named by the
  number of the request it belongs to, and it is settled at most once (a second
  \<open>resolve\<close> or \<open>reject\<close> of a settled promise does nothing, as in JavaScript).
\<close>

type_synonym byte = "8 word"
type_synonym buffer = "byte list"

datatype error = Error string

datatype promise = Pending | Fulfilled buffer | Rejected error

text \<open>
  The fields of \<open>CrabCacheConnection\<close>. An entry of \<open>pendingResponses\<close> is the request
  number whose \<open>resolve\<close>/\<open>reject\<close>/\<open>timeout\<close> triple it holds; \<open>timers\<close> are the armed
  \<open>setTimeout\<close> handles with the error their callback rejects with; \<open>written\<close> logs the
  \<open>socket.write\<close> calls.
\<close>

record crabCacheConnection =
  useBinaryProtocol :: bool
  connected :: bool
  responseBuffer :: buffer
  pendingResponses :: "nat list"
  promises :: "nat \<Rightarrow> promise"
  timers :: "(nat \<times> error) list"
  written :: "buffer list"
  nextRequest :: nat

definition newConnection :: "bool \<Rightarrow> crabCacheConnection" where
  "newConnection bin =
     \<lparr>useBinaryProtocol = bin, connected = True, responseBuffer = [],
      pendingResponses = [], promises = (\<lambda>_. Pending), timers = [],
      written = [], nextRequest = 0\<rparr>"

definition settle :: "nat \<Rightarrow> promise \<Rightarrow> (nat \<Rightarrow> promise) \<Rightarrow> (nat \<Rightarrow> promise)" where
  "settle r v ps = (if ps r = Pending then ps(r := v) else ps)"

definition clearTimeout :: "nat \<Rightarrow> (nat \<times> error) list \<Rightarrow> (nat \<times> error) list" where
  "clearTimeout r ts = filter (\<lambda>(k, e). k \<noteq> r) ts"

text \<open>The \<open>resolve\<close> and \<open>reject\<close> closures stored in a pending record.\<close>

definition pendingResolve :: "nat \<Rightarrow> buffer \<Rightarrow> crabCacheConnection \<Rightarrow> crabCacheConnection" where
  "pendingResolve r response c =
     c\<lparr>timers := clearTimeout r (timers c),
       promises := settle r (Fulfilled response) (promises c)\<rparr>"

definition pendingReject :: "nat \<Rightarrow> error \<Rightarrow> crabCacheConnection \<Rightarrow> crabCacheConnection" where
  "pendingReject r e c =
     c\<lparr>timers := clearTimeout r (timers c),
       promises := settle r (Rejected e) (promises c)\<rparr>"

text \<open>
  The callback of a command timer: it rejects the promise directly and touches neither
  the queue nor the socket. A timer that was cleared never fires.
\<close>

definition timerFires :: "nat \<Rightarrow> crabCacheConnection \<Rightarrow> crabCacheConnection" where
  "timerFires r c =
     (case map_of (timers c) r of
        None \<Rightarrow> c
      | Some e \<Rightarrow> c\<lparr>timers := clearTimeout r (timers c),
                     promises := settle r (Rejected e) (promises c)\<rparr>)"

subsection \<open>Sending\<close>

text \<open>
  \<open>sendCommand\<close> on a connected connection: arm the timer, push the record, write.
  The result is the request number of the returned promise.
\<close>

definition sendCommand :: "buffer \<Rightarrow> crabCacheConnection \<Rightarrow> nat \<times> crabCacheConnection" where
  "sendCommand data c =
     (let r = nextRequest c in
      (r, c\<lparr>nextRequest := Suc r,
             timers := timers c @ [(r, Error ''Command timeout'')],
             pendingResponses := pendingResponses c @ [r],
             written := written c @ [data]\<rparr>))"

text \<open>The write callback of \<open>sendCommand\<close>: on an error the last record is popped and rejected.\<close>

definition sendCommand_written :: "error option \<Rightarrow> crabCacheConnection \<Rightarrow> crabCacheConnection" where
  "sendCommand_written err c =
     (case err of
        None \<Rightarrow> c
      | Some e \<Rightarrow>
          (if pendingResponses c = [] then c
           else pendingReject (last (pendingResponses c)) e
                  (c\<lparr>pendingResponses := butlast (pendingResponses c)\<rparr>)))"

text \<open>The \<open>for\<close> loop of \<open>sendPipelineCommands\<close>: one record per blob, in call order.\<close>

fun enqueuePipeline :: "buffer list \<Rightarrow> crabCacheConnection \<Rightarrow> nat list \<times> crabCacheConnection" where
  "enqueuePipeline [] c = ([], c)"
| "enqueuePipeline (b # bs) c =
     (let r = nextRequest c;
          c1 = c\<lparr>nextRequest := Suc r,
                 timers := timers c @ [(r, Error ''Pipeline command timeout'')],
                 pendingResponses := pendingResponses c @ [r]\<rparr>;
          (rs, c2) = enqueuePipeline bs c1
      in (r # rs, c2))"

definition sendPipelineCommands ::
    "buffer list \<Rightarrow> crabCacheConnection \<Rightarrow> nat list \<times> crabCacheConnection" where
  "sendPipelineCommands commands c =
     (let (responses, c1) = enqueuePipeline commands c;
          batchData = concat commands
      in (responses, c1\<lparr>written := written c1 @ [batchData]\<rparr>))"

text \<open>
  The write callback of \<open>sendPipelineCommands\<close> when the write fails: the \<open>while\<close>
  loop pops and rejects until the queue is empty.
\<close>

function pipelineWriteFailed :: "error \<Rightarrow> crabCacheConnection \<Rightarrow> crabCacheConnection" where
  "pipelineWriteFailed e c =
     (if pendingResponses c \<noteq> [] then
        pipelineWriteFailed e
          (pendingReject (last (pendingResponses c)) e
             (c\<lparr>pendingResponses := butlast (pendingResponses c)\<rparr>))
      else c)"
  by pat_completeness auto
termination
  by (relation "measure (\<lambda>(e, c). length (pendingResponses c))")
     (auto simp: pendingReject_def)

declare pipelineWriteFailed.simps [simp del]

subsection \<open>Frame extraction\<close>

text \<open>\<open>responseBuffer.indexOf('\r\n')\<close>: the position of the first CR LF pair, if any.\<close>

fun crlfIndex :: "buffer \<Rightarrow> nat option" where
  "crlfIndex (a # b # xs) =
     (if a = 13 \<and> b = 10 then Some 0 else map_option Suc (crlfIndex (b # xs)))"
| "crlfIndex xs = None"

text \<open>
  The extraction functions return \<open>null\<close> (\<open>None\<close>, buffer untouched) or the response
  together with the new \<open>responseBuffer\<close>.
\<close>

definition extractTextResponse :: "buffer \<Rightarrow> (buffer \<times> buffer) option" where
  "extractTextResponse buf =
     (case crlfIndex buf of
        None \<Rightarrow> None
      | Some i \<Rightarrow> Some (take i buf, drop (i + 2) buf))"

definition readUInt32LE :: "buffer \<Rightarrow> nat \<Rightarrow> error + nat" where
  "readUInt32LE buf off =
     (if off + 4 \<le> length buf
      then Inr (unat (buf ! off) + 256 * unat (buf ! (off + 1))
                + 65536 * unat (buf ! (off + 2)) + 16777216 * unat (buf ! (off + 3)))
      else Inl (Error ''ERR_OUT_OF_RANGE''))"

definition hexDigit :: "nat \<Rightarrow> char" where
  "hexDigit n = ''0123456789abcdef'' ! n"

definition toString16 :: "byte \<Rightarrow> string" where
  "toString16 b =
     (if unat b < 16 then [hexDigit (unat b)]
      else [hexDigit (unat b div 16), hexDigit (unat b mod 16)])"

text \<open>The \<open>try\<close> block of \<open>extractBinaryResponse\<close>, on a non-empty buffer; \<open>Inl\<close> is a throw.\<close>

definition extractBinaryResponse_try :: "buffer \<Rightarrow> error + (buffer \<times> buffer) option" where
  "extractBinaryResponse_try buf =
     (let responseType = hd buf in
      if responseType = 0x10 \<or> responseType = 0x11 \<or> responseType = 0x12 then
        Inr (Some (take 1 buf, drop 1 buf))
      else if responseType = 0x13 \<or> responseType = 0x14 \<or> responseType = 0x15 then
        (if length buf < 5 then Inr None
         else
           (case readUInt32LE buf 1 of
              Inl e \<Rightarrow> Inl e
            | Inr len \<Rightarrow>
                (let totalLength = 1 + 4 + len in
                 if length buf < totalLength then Inr None
                 else Inr (Some (take totalLength buf, drop totalLength buf)))))
      else Inl (Error (''Unknown response type: 0x'' @ toString16 responseType)))"

text \<open>The whole function: the \<open>catch\<close> turns every throw of the \<open>try\<close> block into \<open>null\<close>.\<close>

definition extractBinaryResponse :: "buffer \<Rightarrow> (buffer \<times> buffer) option" where
  "extractBinaryResponse buf =
     (if buf = [] then None
      else (case extractBinaryResponse_try buf of
              Inl e \<Rightarrow> None
            | Inr r \<Rightarrow> r))"

definition extractResponse :: "bool \<Rightarrow> buffer \<Rightarrow> (buffer \<times> buffer) option" where
  "extractResponse bin buf =
     (if bin then extractBinaryResponse buf else extractTextResponse buf)"

subsection \<open>Receiving\<close>

text \<open>
  The \<open>while\<close> loop of \<open>handleData\<close>. A \<open>Buffer\<close> is truthy even when empty, so
  \<open>if (response)\<close> tests only for \<open>null\<close>.
\<close>

function handleLoop :: "crabCacheConnection \<Rightarrow> crabCacheConnection" where
  "handleLoop c =
     (if responseBuffer c \<noteq> [] \<and> pendingResponses c \<noteq> [] then
        (case extractResponse (useBinaryProtocol c) (responseBuffer c) of
           None \<Rightarrow> c
         | Some (response, rest) \<Rightarrow>
             handleLoop
               (pendingResolve (hd (pendingResponses c)) response
                  (c\<lparr>responseBuffer := rest,
                     pendingResponses := tl (pendingResponses c)\<rparr>)))
      else c)"
  by pat_completeness auto
termination
  by (relation "measure (\<lambda>c. length (pendingResponses c))")
     (auto simp: pendingResolve_def)

declare handleLoop.simps [simp del]

definition handleData :: "buffer \<Rightarrow> crabCacheConnection \<Rightarrow> crabCacheConnection" where
  "handleData data c = handleLoop (c\<lparr>responseBuffer := responseBuffer c @ data\<rparr>)"

text \<open>The chunks of the socket's \<open>data\<close> events, delivered one after the other.\<close>

definition receive :: "buffer list \<Rightarrow> crabCacheConnection \<Rightarrow> crabCacheConnection" where
  "receive chunks c = fold handleData chunks c"

subsection \<open>FIFO correlation of frames and requests\<close>

lemma crlfIndex_append:
  "crlfIndex b = Some i \<Longrightarrow> crlfIndex (b @ d) = Some i"
  by (induction b arbitrary: i rule: crlfIndex.induct) (auto split: if_splits)

lemma crlfIndex_bound:
  "crlfIndex b = Some i \<Longrightarrow> i + 2 \<le> length b"
  by (induction b arbitrary: i rule: crlfIndex.induct) (auto split: if_splits)

lemma extractTextResponse_append:
  "extractTextResponse b = Some (f, r) \<Longrightarrow> extractTextResponse (b @ d) = Some (f, r @ d)"
  by (auto simp: extractTextResponse_def crlfIndex_append split: option.splits dest!: crlfIndex_bound)

lemma readUInt32LE_append:
  "off + 4 \<le> length b \<Longrightarrow> readUInt32LE (b @ d) off = readUInt32LE b off"
  by (simp add: readUInt32LE_def nth_append)

text \<open>The two groups of recognised response tags.\<close>

definition simpleTag :: "byte \<Rightarrow> bool" where
  "simpleTag t \<longleftrightarrow> t = 0x10 \<or> t = 0x11 \<or> t = 0x12"

definition lengthTag :: "byte \<Rightarrow> bool" where
  "lengthTag t \<longleftrightarrow> t = 0x13 \<or> t = 0x14 \<or> t = 0x15"

lemma tags_disjoint: "simpleTag t \<Longrightarrow> \<not> lengthTag t"
  by (auto simp: simpleTag_def lengthTag_def)

lemma extractBinaryResponse_simple:
  "simpleTag t \<Longrightarrow> extractBinaryResponse (t # xs) = Some ([t], xs)"
  unfolding extractBinaryResponse_def extractBinaryResponse_try_def simpleTag_def
  by (simp add: Let_def)

lemma extractBinaryResponse_unknown:
  "\<not> simpleTag t \<Longrightarrow> \<not> lengthTag t \<Longrightarrow> extractBinaryResponse (t # xs) = None"
  unfolding extractBinaryResponse_def extractBinaryResponse_try_def simpleTag_def lengthTag_def
  by (simp add: Let_def)

lemma extractBinaryResponse_length:
  assumes "lengthTag t"
  shows "extractBinaryResponse (t # xs) =
     (if length xs < 4 then None
      else (case readUInt32LE (t # xs) 1 of
              Inl e \<Rightarrow> None
            | Inr len \<Rightarrow> if length xs < 4 + len then None
                         else Some (take (5 + len) (t # xs), drop (5 + len) (t # xs))))"
proof -
  have "\<not> simpleTag t" using assms tags_disjoint by blast
  then have a: "\<not> (t = 0x10 \<or> t = 0x11 \<or> t = 0x12)" by (simp add: simpleTag_def)
  have b: "t = 0x13 \<or> t = 0x14 \<or> t = 0x15" using assms by (simp add: lengthTag_def)
  have c: "(length (t # xs) < 5) = (length xs < 4)" by auto
  have d: "\<And>len. (length (t # xs) < 1 + 4 + len) = (length xs < 4 + len)" by auto
  show ?thesis
    unfolding extractBinaryResponse_def extractBinaryResponse_try_def Let_def
    apply (simp only: list.sel if_not_P [OF a] if_P [OF b] c d)
    apply (simp split: sum.splits)
    done
qed

lemma take_Cons_append:
  "n \<le> Suc (length xs) \<Longrightarrow> take n (t # xs @ d) = take n (t # xs)"
  by (cases n) auto

lemma drop_Cons_append:
  "n \<le> Suc (length xs) \<Longrightarrow> drop n (t # xs @ d) = drop n (t # xs) @ d"
  by (cases n) auto

lemma extractBinaryResponse_append:
  assumes "extractBinaryResponse b = Some (f, r)"
  shows "extractBinaryResponse (b @ d) = Some (f, r @ d)"
proof (cases b)
  case Nil
  with assms show ?thesis by (simp add: extractBinaryResponse_def)
next
  case (Cons t xs)
  consider "simpleTag t" | "lengthTag t" | "\<not> simpleTag t" "\<not> lengthTag t" by blast
  then show ?thesis
  proof cases
    case 1
    with assms Cons show ?thesis by (simp add: extractBinaryResponse_simple)
  next
    case 2
    from assms Cons 2 have len4: "\<not> length xs < 4"
      by (auto simp: extractBinaryResponse_length split: if_splits)
    then have rd: "readUInt32LE (t # xs @ d) (Suc 0) = readUInt32LE (t # xs) (Suc 0)"
      using readUInt32LE_append [of "Suc 0" "t # xs" d] by simp
    from assms Cons 2 len4 show ?thesis
      by (auto simp: extractBinaryResponse_length rd take_Cons_append drop_Cons_append
          split: if_splits sum.splits)
  next
    case 3
    with assms Cons show ?thesis by (simp add: extractBinaryResponse_unknown)
  qed
qed

lemma extractResponse_append:
  "extractResponse bin b = Some (f, r) \<Longrightarrow> extractResponse bin (b @ d) = Some (f, r @ d)"
  by (auto simp: extractResponse_def extractTextResponse_append extractBinaryResponse_append)

lemma extractBinaryResponse_shrinks:
  assumes "extractBinaryResponse b = Some (f, r)"
  shows "length r < length b"
proof (cases b)
  case Nil
  with assms show ?thesis by (simp add: extractBinaryResponse_def)
next
  case (Cons t xs)
  consider "simpleTag t" | "lengthTag t" | "\<not> simpleTag t" "\<not> lengthTag t" by blast
  then show ?thesis
  proof cases
    case 1
    with assms Cons show ?thesis by (auto simp add: extractBinaryResponse_simple)
  next
    case 2
    with assms Cons show ?thesis
      by (auto simp: extractBinaryResponse_length split: if_splits sum.splits)
  next
    case 3
    with assms Cons show ?thesis by (simp add: extractBinaryResponse_unknown)
  qed
qed

lemma extractResponse_shrinks:
  "extractResponse bin b = Some (f, r) \<Longrightarrow> length r < length b"
  by (auto simp: extractResponse_def extractTextResponse_def extractBinaryResponse_shrinks
      split: if_splits option.splits dest!: crlfIndex_bound)

lemma extractResponse_Nil [simp]: "extractResponse bin [] = None"
  by (simp add: extractResponse_def extractTextResponse_def extractBinaryResponse_def)

lemma handleLoop_append:
  "handleLoop ((handleLoop c)\<lparr>responseBuffer := responseBuffer (handleLoop c) @ d\<rparr>)
   = handleLoop (c\<lparr>responseBuffer := responseBuffer c @ d\<rparr>)"
proof (induction c rule: handleLoop.induct)
  case (1 c)
  show ?case
  proof (cases "responseBuffer c \<noteq> [] \<and> pendingResponses c \<noteq> []")
    case False
    then have "handleLoop c = c" by (subst handleLoop.simps) auto
    then show ?thesis by simp
  next
    case True
    show ?thesis
    proof (cases "extractResponse (useBinaryProtocol c) (responseBuffer c)")
      case None
      with True have "handleLoop c = c" by (subst handleLoop.simps) auto
      then show ?thesis by simp
    next
      case (Some fr)
      obtain f r where fr: "fr = (f, r)" by (cases fr)
      let ?c' = "pendingResolve (hd (pendingResponses c)) f
                  (c\<lparr>responseBuffer := r, pendingResponses := tl (pendingResponses c)\<rparr>)"
      have l: "handleLoop c = handleLoop ?c'"
        using True Some fr by (subst handleLoop.simps) auto
      have ext: "extractResponse (useBinaryProtocol c) (responseBuffer c @ d) = Some (f, r @ d)"
        using Some fr by (simp add: extractResponse_append)
      have eq: "pendingResolve (hd (pendingResponses c)) f
                  (c\<lparr>responseBuffer := r @ d, pendingResponses := tl (pendingResponses c)\<rparr>)
                = ?c'\<lparr>responseBuffer := responseBuffer ?c' @ d\<rparr>"
        by (cases c) (simp add: pendingResolve_def)
      have r: "handleLoop (c\<lparr>responseBuffer := responseBuffer c @ d\<rparr>)
               = handleLoop (?c'\<lparr>responseBuffer := responseBuffer ?c' @ d\<rparr>)"
        using True ext
        by (subst handleLoop.simps) (simp add: eq [symmetric])
      show ?thesis
        using "1.IH" [OF True Some fr [symmetric]] l r by simp
    qed
  qed
qed

text \<open>
  The frames of a byte stream: what repeated extraction yields from the whole stream.
\<close>

function extractAll :: "bool \<Rightarrow> buffer \<Rightarrow> buffer list" where
  "extractAll bin buf =
     (case extractResponse bin buf of
        None \<Rightarrow> []
      | Some (response, rest) \<Rightarrow> response # extractAll bin rest)"
  by pat_completeness auto
termination
  by (relation "measure (\<lambda>(bin, buf). length buf)")
     (auto simp: extractResponse_shrinks)

declare extractAll.simps [simp del]

text \<open>Resolving the queued requests with the frames, pairwise and in order.\<close>

definition resolveAll :: "nat list \<Rightarrow> buffer list \<Rightarrow> (nat \<Rightarrow> promise) \<Rightarrow> (nat \<Rightarrow> promise)" where
  "resolveAll rs fs ps = fold (\<lambda>(r, f). settle r (Fulfilled f)) (zip rs fs) ps"

lemma handleLoop_effect:
  "promises (handleLoop c) =
     resolveAll (pendingResponses c)
       (extractAll (useBinaryProtocol c) (responseBuffer c)) (promises c)
   \<and> pendingResponses (handleLoop c) =
     drop (length (extractAll (useBinaryProtocol c) (responseBuffer c))) (pendingResponses c)
   \<and> useBinaryProtocol (handleLoop c) = useBinaryProtocol c
   \<and> connected (handleLoop c) = connected c"
proof (induction c rule: handleLoop.induct)
  case (1 c)
  show ?case
  proof (cases "responseBuffer c \<noteq> [] \<and> pendingResponses c \<noteq> []")
    case False
    then have h: "handleLoop c = c" by (subst handleLoop.simps) auto
    from False have "responseBuffer c = [] \<or> pendingResponses c = []" by blast
    then show ?thesis
    proof
      assume "responseBuffer c = []"
      then have "extractAll (useBinaryProtocol c) (responseBuffer c) = []"
        by (simp add: extractAll.simps)
      then show ?thesis by (simp add: h resolveAll_def)
    next
      assume "pendingResponses c = []"
      then show ?thesis by (simp add: h resolveAll_def)
    qed
  next
    case True
    show ?thesis
    proof (cases "extractResponse (useBinaryProtocol c) (responseBuffer c)")
      case None
      with True have h: "handleLoop c = c" by (subst handleLoop.simps) auto
      from None have "extractAll (useBinaryProtocol c) (responseBuffer c) = []"
        by (simp add: extractAll.simps)
      then show ?thesis by (simp add: h resolveAll_def)
    next
      case (Some fr)
      obtain f r where fr: "fr = (f, r)" by (cases fr)
      let ?c' = "pendingResolve (hd (pendingResponses c)) f
                  (c\<lparr>responseBuffer := r, pendingResponses := tl (pendingResponses c)\<rparr>)"
      have l: "handleLoop c = handleLoop ?c'"
        using True Some fr by (subst handleLoop.simps) auto
      have ea: "extractAll (useBinaryProtocol c) (responseBuffer c)
                = f # extractAll (useBinaryProtocol c) r"
        using Some fr by (subst extractAll.simps) simp
      obtain p q where pq: "pendingResponses c = p # q"
        using True by (cases "pendingResponses c") auto
      show ?thesis
        using "1.IH" [OF True Some fr [symmetric]]
        by (simp add: l ea pq pendingResolve_def resolveAll_def)
    qed
  qed
qed

lemma resolveAll_other:
  "r \<notin> set rs \<Longrightarrow> resolveAll rs fs ps r = ps r"
proof (induction rs arbitrary: fs ps)
  case Nil
  then show ?case by (simp add: resolveAll_def)
next
  case (Cons a rs)
  show ?case
  proof (cases fs)
    case Nil
    then show ?thesis by (simp add: resolveAll_def)
  next
    case (Cons f fs')
    have "resolveAll (a # rs) fs ps r = resolveAll rs fs' (settle a (Fulfilled f) ps) r"
      by (simp add: resolveAll_def Cons)
    also have "\<dots> = settle a (Fulfilled f) ps r"
      using Cons.IH Cons.prems by simp
    also have "\<dots> = ps r"
      using Cons.prems by (simp add: settle_def)
    finally show ?thesis .
  qed
qed

lemma resolveAll_nth:
  "distinct rs \<Longrightarrow> \<forall>r \<in> set rs. ps r = Pending \<Longrightarrow> i < length rs \<Longrightarrow> i < length fs
   \<Longrightarrow> resolveAll rs fs ps (rs ! i) = Fulfilled (fs ! i)"
proof (induction rs arbitrary: fs ps i)
  case Nil
  then show ?case by simp
next
  case (Cons a rs)
  obtain f fs' where fs: "fs = f # fs'"
    using Cons.prems(4) by (cases fs) auto
  have step: "resolveAll (a # rs) (f # fs') ps = resolveAll rs fs' (settle a (Fulfilled f) ps)"
    by (simp add: resolveAll_def)
  have a: "settle a (Fulfilled f) ps = ps(a := Fulfilled f)"
    using Cons.prems(2) by (simp add: settle_def)
  show ?case
  proof (cases i)
    case 0
    have "resolveAll rs fs' (ps(a := Fulfilled f)) a = (ps(a := Fulfilled f)) a"
      using Cons.prems(1) by (intro resolveAll_other) simp
    then show ?thesis by (simp add: 0 step a fs)
  next
    case (Suc j)
    have "resolveAll rs fs' (ps(a := Fulfilled f)) (rs ! j) = Fulfilled (fs' ! j)"
      using Cons.prems Suc fs by (intro Cons.IH) auto
    then show ?thesis by (simp add: Suc step a fs)
  qed
qed

lemma handleLoop_idle:
  "responseBuffer c = [] \<Longrightarrow> handleLoop c = c"
  by (subst handleLoop.simps) simp

lemma handleData_handleData:
  "handleData d2 (handleData d1 c) = handleData (d1 @ d2) c"
proof -
  let ?c1 = "c\<lparr>responseBuffer := responseBuffer c @ d1\<rparr>"
  have "handleData d2 (handleData d1 c)
        = handleLoop (?c1\<lparr>responseBuffer := responseBuffer ?c1 @ d2\<rparr>)"
    unfolding handleData_def by (rule handleLoop_append)
  then show ?thesis by (simp add: handleData_def)
qed

lemma receive_concat:
  "receive chunks (handleData d c) = handleData (d @ concat chunks) c"
  unfolding receive_def
  by (induction chunks arbitrary: d) (simp_all add: handleData_handleData)

lemma receive_at_once:
  assumes "responseBuffer c = []"
  shows "receive chunks c = handleData (concat chunks) c"
proof -
  have "handleData [] c = c"
    using assms by (simp add: handleData_def handleLoop_idle)
  then show ?thesis
    using receive_concat [of chunks "[]" c] by simp
qed

text \<open>
  What a complete frame is, written without the extraction functions. Under delimited
  text framing a frame is a byte string with no CR LF pair inside; on the wire it is
  followed by CR LF. Under length-prefixed binary framing a frame is either one of the
  single tag bytes 0x10, 0x11, 0x12, or a tag 0x13, 0x14 or 0x15, four bytes holding the
  payload length as a little-endian unsigned number, and exactly that many payload bytes;
  on the wire it is sent as it is.
\<close>

definition containsCRLF :: "buffer \<Rightarrow> bool" where
  "containsCRLF f \<longleftrightarrow> (13, 10) \<in> set (zip f (tl f))"

fun binaryFrame :: "buffer \<Rightarrow> bool" where
  "binaryFrame [t] \<longleftrightarrow> t = 0x10 \<or> t = 0x11 \<or> t = 0x12"
| "binaryFrame (t # l0 # l1 # l2 # l3 # payload) \<longleftrightarrow>
     (t = 0x13 \<or> t = 0x14 \<or> t = 0x15)
     \<and> length payload = unat l0 + 256 * unat l1 + 65536 * unat l2 + 16777216 * unat l3"
| "binaryFrame f \<longleftrightarrow> False"

definition wellFramed :: "bool \<Rightarrow> buffer \<Rightarrow> bool" where
  "wellFramed bin f = (if bin then binaryFrame f else \<not> containsCRLF f)"

definition onWire :: "bool \<Rightarrow> buffer \<Rightarrow> buffer" where
  "onWire bin f = (if bin then f else f @ [13, 10])"

text \<open>
  Extraction agrees with these frames: from a frame on the wire followed by any bytes,
  \<open>extractResponse\<close> returns the frame and leaves the bytes after it, so repeated
  extraction over a sequence of frames gives back the frames in order.
\<close>

lemma crlfIndex_None_iff: "crlfIndex f = None \<longleftrightarrow> \<not> containsCRLF f"
  by (induction f rule: crlfIndex.induct) (auto simp: containsCRLF_def)

lemma crlfIndex_frame:
  "crlfIndex f = None \<Longrightarrow> crlfIndex (f @ 13 # 10 # rest) = Some (length f)"
  by (induction f rule: crlfIndex.induct) (auto split: if_splits)

lemma extractTextResponse_frame:
  "\<not> containsCRLF f \<Longrightarrow> extractTextResponse (f @ 13 # 10 # rest) = Some (f, rest)"
  by (simp add: extractTextResponse_def crlfIndex_frame crlfIndex_None_iff)

lemma extractBinaryResponse_frame:
  assumes "binaryFrame f"
  shows "extractBinaryResponse (f @ rest) = Some (f, rest)"
  using assms
proof (induction f rule: binaryFrame.induct)
  case (1 t)
  then have "simpleTag t" by (simp add: simpleTag_def)
  then show ?case by (simp add: extractBinaryResponse_simple)
next
  case (2 t l0 l1 l2 l3 payload)
  define n where "n = unat l0 + 256 * unat l1 + 65536 * unat l2 + 16777216 * unat l3"
  have tag: "lengthTag t" and len: "length payload = n"
    using 2 by (simp_all add: lengthTag_def n_def)
  have rd: "readUInt32LE (t # l0 # l1 # l2 # l3 # payload @ rest) (Suc 0) = Inr n"
    by (simp add: readUInt32LE_def n_def)
  have five: "5 + n = Suc (Suc (Suc (Suc (Suc n))))"
    by simp
  have "extractBinaryResponse (t # (l0 # l1 # l2 # l3 # payload @ rest))
        = Some (t # l0 # l1 # l2 # l3 # payload, rest)"
    unfolding extractBinaryResponse_length [OF tag]
    using len by (simp add: rd) (simp add: five)
  then show ?case by simp
qed simp_all

lemma extractResponse_frame:
  "wellFramed bin f \<Longrightarrow> extractResponse bin (onWire bin f @ rest) = Some (f, rest)"
  by (simp add: wellFramed_def onWire_def extractResponse_def extractBinaryResponse_frame
      extractTextResponse_frame)

lemma extractAll_frames:
  "\<forall>f \<in> set fs. wellFramed bin f \<Longrightarrow>
     extractAll bin (concat (map (onWire bin) fs) @ rest) = fs @ extractAll bin rest"
proof (induction fs)
  case Nil
  then show ?case by simp
next
  case (Cons f fs)
  have "extractResponse bin (concat (map (onWire bin) (f # fs)) @ rest)
        = Some (f, concat (map (onWire bin) fs) @ rest)"
    using Cons.prems extractResponse_frame [of bin f "concat (map (onWire bin) fs) @ rest"]
    by simp
  then show ?case
    using Cons by (subst extractAll.simps) simp
qed


text \<open>
  C1. Requests are enqueued on a connection whose receive buffer is empty and none of
  them is settled. The delivered chunks, concatenated, are a sequence of complete frames
  of the connection's framing (text or binary, whatever their content), at least as many
  as there are queued requests, followed by any further bytes. Then, wherever the chunk
  boundaries fall, the promise of the i-th queued request is fulfilled with the i-th
  frame, for every i, and the queue ends empty.
\<close>

theorem fifo_correlation:
  assumes "responseBuffer c = []"
    and "distinct (pendingResponses c)"
    and "\<forall>r \<in> set (pendingResponses c). promises c r = Pending"
    and "\<forall>f \<in> set frames. wellFramed (useBinaryProtocol c) f"
    and "concat chunks = concat (map (onWire (useBinaryProtocol c)) frames) @ rest"
    and "length (pendingResponses c) \<le> length frames"
  shows "(\<forall>i < length (pendingResponses c).
            promises (receive chunks c) (pendingResponses c ! i) = Fulfilled (frames ! i))
         \<and> pendingResponses (receive chunks c) = []"
proof -
  let ?c = "c\<lparr>responseBuffer := responseBuffer c @ concat chunks\<rparr>"
  let ?fs = "extractAll (useBinaryProtocol c) (concat chunks)"
  have fs: "?fs = frames @ extractAll (useBinaryProtocol c) rest"
    unfolding assms(5) using assms(4) by (rule extractAll_frames)
  have len: "length (pendingResponses c) \<le> length ?fs"
    using assms(6) by (simp add: fs)
  have r: "receive chunks c = handleLoop ?c"
    using assms(1) by (simp add: receive_at_once handleData_def)
  have p: "promises (handleLoop ?c) = resolveAll (pendingResponses c) ?fs (promises c)"
    and q: "pendingResponses (handleLoop ?c) = drop (length ?fs) (pendingResponses c)"
    using handleLoop_effect [of ?c] assms(1) by simp_all
  have "\<forall>i < length (pendingResponses c).
          resolveAll (pendingResponses c) ?fs (promises c) (pendingResponses c ! i)
            = Fulfilled (?fs ! i)"
    using assms(2,3) len by (auto intro!: resolveAll_nth)
  moreover have "\<forall>i < length (pendingResponses c). ?fs ! i = frames ! i"
    using assms(6) by (simp add: fs nth_append)
  ultimately show ?thesis
    using len by (simp add: r p q)
qed

text \<open>
  A text connection with three requests (one command, then a pipeline of two) and a
  binary connection with two requests (GET k, then PING).
\<close>

definition exampleQueue :: crabCacheConnection where
  "exampleQueue =
     snd (sendPipelineCommands [[71, 13, 10], [72, 13, 10]]
            (snd (sendCommand [80, 13, 10] (newConnection False))))"

definition binaryQueue :: crabCacheConnection where
  "binaryQueue = snd (sendCommand [1] (snd (sendCommand [3, 1, 107] (newConnection True))))"

text \<open>
  Three text replies split inside a terminator, and a binary VALUE reply split inside
  its length field and inside its payload, followed by a PONG.
\<close>

theorem fifo_correlation_witness:
  "promises (receive [[79, 75, 13], [10, 80, 79], [78, 71, 13, 10, 13, 10]] exampleQueue) 0
     = Fulfilled [79, 75]
   \<and> promises (receive [[79, 75, 13], [10, 80, 79], [78, 71, 13, 10, 13, 10]] exampleQueue) 1
     = Fulfilled [80, 79, 78, 71]
   \<and> promises (receive [[79, 75, 13], [10, 80, 79], [78, 71, 13, 10, 13, 10]] exampleQueue) 2
     = Fulfilled []
   \<and> pendingResponses (receive [[79, 75, 13], [10, 80, 79], [78, 71, 13, 10, 13, 10]] exampleQueue) = []
   \<and> promises (receive [[0x14, 2], [0, 0, 0, 65], [66, 0x11]] binaryQueue) 0
     = Fulfilled [0x14, 2, 0, 0, 0, 65, 66]
   \<and> promises (receive [[0x14, 2], [0, 0, 0, 65], [66, 0x11]] binaryQueue) 1
     = Fulfilled [0x11]
   \<and> pendingResponses (receive [[0x14, 2], [0, 0, 0, 65], [66, 0x11]] binaryQueue) = []"
proof -
  let ?chunks = "[[79, 75, 13], [10, 80, 79], [78, 71, 13, 10, 13, 10]] :: buffer list"
  let ?frames = "[[79, 75], [80, 79, 78, 71], []] :: buffer list"
  let ?c = "receive ?chunks exampleQueue"
  have q: "pendingResponses exampleQueue = [0, 1, 2]"
    and b: "responseBuffer exampleQueue = []"
    and t: "useBinaryProtocol exampleQueue = False"
    and p: "promises exampleQueue = (\<lambda>_. Pending)"
    by (simp_all add: exampleQueue_def sendPipelineCommands_def sendCommand_def
        newConnection_def Let_def)
  have wf: "\<forall>f \<in> set ?frames. wellFramed False f"
    by (simp add: wellFramed_def crlfIndex_None_iff [symmetric])
  have "(\<forall>i < length (pendingResponses exampleQueue).
            promises ?c (pendingResponses exampleQueue ! i) = Fulfilled (?frames ! i))
         \<and> pendingResponses ?c = []"
  proof (rule fifo_correlation [where rest = "[]"])
    show "responseBuffer exampleQueue = []"
      by (rule b)
    show "distinct (pendingResponses exampleQueue)"
      by (simp add: q)
    show "\<forall>r \<in> set (pendingResponses exampleQueue). promises exampleQueue r = Pending"
      by (simp add: p)
    show "\<forall>f \<in> set ?frames. wellFramed (useBinaryProtocol exampleQueue) f"
      unfolding t by (rule wf)
    show "concat ?chunks = concat (map (onWire (useBinaryProtocol exampleQueue)) ?frames) @ []"
      by (simp add: t onWire_def)
    show "length (pendingResponses exampleQueue) \<le> length ?frames"
      by (simp add: q)
  qed
  then have h: "\<forall>i < 3. promises ?c ([0, 1, 2] ! i) = Fulfilled (?frames ! i)"
    and e: "pendingResponses ?c = []"
    unfolding q by simp_all
  have t0: "promises ?c 0 = Fulfilled [79, 75]"
    using h [rule_format, of 0] by simp
  have t1: "promises ?c 1 = Fulfilled [80, 79, 78, 71]"
    using h [rule_format, of 1] by simp
  have t2: "promises ?c 2 = Fulfilled []"
    using h [rule_format, of 2] by simp
  let ?bchunks = "[[0x14, 2], [0, 0, 0, 65], [66, 0x11]] :: buffer list"
  let ?bframes = "[[0x14, 2, 0, 0, 0, 65, 66], [0x11]] :: buffer list"
  let ?d = "receive ?bchunks binaryQueue"
  have bq: "pendingResponses binaryQueue = [0, 1]"
    and bb: "responseBuffer binaryQueue = []"
    and bt: "useBinaryProtocol binaryQueue = True"
    and bp: "promises binaryQueue = (\<lambda>_. Pending)"
    by (simp_all add: binaryQueue_def sendCommand_def newConnection_def Let_def)
  have bwf: "\<forall>f \<in> set ?bframes. wellFramed True f"
    by (simp add: wellFramed_def)
  have "(\<forall>i < length (pendingResponses binaryQueue).
            promises ?d (pendingResponses binaryQueue ! i) = Fulfilled (?bframes ! i))
         \<and> pendingResponses ?d = []"
  proof (rule fifo_correlation [where rest = "[]"])
    show "responseBuffer binaryQueue = []"
      by (rule bb)
    show "distinct (pendingResponses binaryQueue)"
      by (simp add: bq)
    show "\<forall>r \<in> set (pendingResponses binaryQueue). promises binaryQueue r = Pending"
      by (simp add: bp)
    show "\<forall>f \<in> set ?bframes. wellFramed (useBinaryProtocol binaryQueue) f"
      unfolding bt by (rule bwf)
    show "concat ?bchunks = concat (map (onWire (useBinaryProtocol binaryQueue)) ?bframes) @ []"
      by (simp add: bt onWire_def)
    show "length (pendingResponses binaryQueue) \<le> length ?bframes"
      by (simp add: bq)
  qed
  then have bh: "\<forall>i < 2. promises ?d ([0, 1] ! i) = Fulfilled (?bframes ! i)"
    and be: "pendingResponses ?d = []"
    unfolding bq by simp_all
  have b0: "promises ?d 0 = Fulfilled [0x14, 2, 0, 0, 0, 65, 66]"
    using bh [rule_format, of 0] by simp
  have b1: "promises ?d 1 = Fulfilled [0x11]"
    using bh [rule_format, of 1] by simp
  show ?thesis
    using t0 t1 t2 e b0 b1 be by simp
qed

subsection \<open>A command timer expires\<close>

lemma resolveAll_settled:
  "ps r \<noteq> Pending \<Longrightarrow> resolveAll rs fs ps r = ps r"
proof (induction rs arbitrary: fs ps)
  case Nil
  then show ?case by (simp add: resolveAll_def)
next
  case (Cons a rs)
  show ?case
  proof (cases fs)
    case Nil
    then show ?thesis by (simp add: resolveAll_def)
  next
    case (Cons f fs')
    have s: "settle a (Fulfilled f) ps r = ps r"
      using Cons.prems by (auto simp: settle_def)
    have "resolveAll (a # rs) (f # fs') ps r = resolveAll rs fs' (settle a (Fulfilled f) ps) r"
      by (simp add: resolveAll_def)
    also have "\<dots> = settle a (Fulfilled f) ps r"
      using Cons.prems s by (intro Cons.IH) simp
    finally show ?thesis using s Cons by simp
  qed
qed

lemma timerFires_effect:
  assumes "map_of (timers c) r = Some e"
  shows "promises (timerFires r c) = settle r (Rejected e) (promises c)"
    and "pendingResponses (timerFires r c) = pendingResponses c"
    and "connected (timerFires r c) = connected c"
    and "responseBuffer (timerFires r c) = responseBuffer c"
    and "useBinaryProtocol (timerFires r c) = useBinaryProtocol c"
  using assms by (simp_all add: timerFires_def)

text \<open>
  C2, as the code has it. Requests r1 and r2 head the queue, both unsettled, and the
  command timer of r1 fires. Only the promise of r1 fails, with the error
  \<open>Command timeout\<close>; every other promise, the connected flag and the queue are as
  before, so the record of r1 keeps its slot. When the replies arrive afterwards, the
  first frame (the late reply to r1) is taken by the record of r1, whose promise stays
  rejected, and r2 is fulfilled by the second frame: the matching is not shifted.
\<close>

theorem timeout_keeps_queue_slot:
  assumes q: "pendingResponses c = r1 # r2 # rest"
    and d: "distinct (pendingResponses c)"
    and p1: "promises c r1 = Pending"
    and p2: "promises c r2 = Pending"
    and t: "map_of (timers c) r1 = Some (Error ''Command timeout'')"
    and b: "responseBuffer c = []"
    and fs: "extractAll (useBinaryProtocol c) (concat chunks) = f1 # f2 # fs"
  shows "promises (timerFires r1 c) r1 = Rejected (Error ''Command timeout'')
       \<and> (\<forall>r. r \<noteq> r1 \<longrightarrow> promises (timerFires r1 c) r = promises c r)
       \<and> connected (timerFires r1 c) = connected c
       \<and> pendingResponses (timerFires r1 c) = pendingResponses c
       \<and> promises (receive chunks (timerFires r1 c)) r1 = Rejected (Error ''Command timeout'')
       \<and> promises (receive chunks (timerFires r1 c)) r2 = Fulfilled f2"
proof -
  let ?e = "Error ''Command timeout''"
  let ?t = "timerFires r1 c"
  let ?ps = "(promises c)(r1 := Rejected ?e)"
  have ps: "promises ?t = ?ps"
    using timerFires_effect(1) [OF t] p1 by (simp add: settle_def)
  have tq: "pendingResponses ?t = r1 # r2 # rest"
    and tb: "responseBuffer ?t = []"
    and tu: "useBinaryProtocol ?t = useBinaryProtocol c"
    and tc: "connected ?t = connected c"
    using timerFires_effect [OF t] q b by simp_all
  let ?c = "?t\<lparr>responseBuffer := responseBuffer ?t @ concat chunks\<rparr>"
  have r: "receive chunks ?t = handleLoop ?c"
    using tb by (simp add: receive_at_once handleData_def)
  have "promises (handleLoop ?c)
          = resolveAll (pendingResponses ?c)
              (extractAll (useBinaryProtocol ?c) (responseBuffer ?c)) (promises ?c)"
    using handleLoop_effect [of ?c] by blast
  then have eff: "promises (receive chunks ?t) = resolveAll (r1 # r2 # rest) (f1 # f2 # fs) ?ps"
    using r tq tb tu ps fs by simp
  have s1: "settle r1 (Fulfilled f1) ?ps = ?ps"
    by (simp add: settle_def)
  have ne: "r1 \<noteq> r2" and nin: "r2 \<notin> set rest"
    using d q by auto
  have s2: "settle r2 (Fulfilled f2) ?ps = ?ps(r2 := Fulfilled f2)"
    using p2 ne by (simp add: settle_def)
  have unfold: "resolveAll (r1 # r2 # rest) (f1 # f2 # fs) ?ps
                  = resolveAll rest fs (?ps(r2 := Fulfilled f2))"
    by (simp add: resolveAll_def s1 s2)
  have a: "promises (receive chunks ?t) r1 = Rejected ?e"
    using ne by (simp add: eff unfold resolveAll_settled)
  have c2: "promises (receive chunks ?t) r2 = Fulfilled f2"
    by (simp add: eff unfold resolveAll_settled)
  show ?thesis
    using a c2 tc tq q by (simp add: ps)
qed

text \<open>Two calls of \<open>sendCommand\<close> on a fresh text connection: requests 0 and 1.\<close>

definition twoCommands :: crabCacheConnection where
  "twoCommands =
     snd (sendCommand [71, 13, 10] (snd (sendCommand [80, 13, 10] (newConnection False))))"

text \<open>
  C2 as stated fails: after the timer of request 0 fired, the late reply \<open>A\<close> does not
  fulfil request 1; it is consumed by the record of request 0 and request 1 stays queued.
\<close>

theorem late_reply_counterexample:
  "promises (handleData [65, 13, 10] (timerFires 0 twoCommands)) 0
     = Rejected (Error ''Command timeout'')
   \<and> promises (handleData [65, 13, 10] (timerFires 0 twoCommands)) 1 \<noteq> Fulfilled [65]
   \<and> pendingResponses (handleData [65, 13, 10] (timerFires 0 twoCommands)) = [1]"
  by (simp add: twoCommands_def sendCommand_def newConnection_def timerFires_def handleData_def
      handleLoop.simps extractResponse_def extractTextResponse_def pendingResolve_def
      settle_def clearTimeout_def Let_def)

theorem timeout_keeps_queue_slot_witness:
  "promises (timerFires 0 twoCommands) 0 = Rejected (Error ''Command timeout'')
   \<and> promises (timerFires 0 twoCommands) 1 = Pending
   \<and> connected (timerFires 0 twoCommands) = True
   \<and> pendingResponses (timerFires 0 twoCommands) = [0, 1]
   \<and> promises (receive [[65, 13], [10, 66, 13, 10]] (timerFires 0 twoCommands)) 0
        = Rejected (Error ''Command timeout'')
   \<and> promises (receive [[65, 13], [10, 66, 13, 10]] (timerFires 0 twoCommands)) 1
        = Fulfilled [66]"
proof -
  have q: "pendingResponses twoCommands = 0 # 1 # []"
    and p: "promises twoCommands = (\<lambda>_. Pending)"
    and t: "map_of (timers twoCommands) 0 = Some (Error ''Command timeout'')"
    and b: "responseBuffer twoCommands = []"
    and u: "useBinaryProtocol twoCommands = False"
    and c: "connected twoCommands = True"
    by (simp_all add: twoCommands_def sendCommand_def newConnection_def Let_def)
  have fs: "extractAll (useBinaryProtocol twoCommands) (concat [[65, 13], [10, 66, 13, 10]])
              = [65] # [66] # []"
    by (simp add: u extractAll.simps extractResponse_def extractTextResponse_def)
  have d: "distinct (pendingResponses twoCommands)"
    by (simp add: q)
  have p1: "promises twoCommands 0 = Pending" and p2: "promises twoCommands 1 = Pending"
    by (simp_all add: p)
  show ?thesis
    using timeout_keeps_queue_slot [OF q d p1 p2 t b fs]
    by (simp add: p c q)
qed

subsection \<open>An unrecognised response tag\<close>

lemma handleLoop_stalled:
  assumes "useBinaryProtocol c" and "responseBuffer c = t # xs"
    and "\<not> simpleTag t" and "\<not> lengthTag t"
  shows "handleLoop c = c"
proof -
  have "extractResponse (useBinaryProtocol c) (responseBuffer c) = None"
    using assms by (simp add: extractResponse_def extractBinaryResponse_unknown)
  then show ?thesis by (subst handleLoop.simps) simp
qed

text \<open>
  Once the buffer of a binary connection starts with a byte that is no response tag,
  no later data is ever extracted: every chunk is only appended.
\<close>

lemma unknown_tag_stalls:
  assumes "useBinaryProtocol c" and "responseBuffer c = t # xs"
    and "\<not> simpleTag t" and "\<not> lengthTag t"
  shows "receive chunks c = c\<lparr>responseBuffer := responseBuffer c @ concat chunks\<rparr>"
  using assms
proof (induction chunks arbitrary: c xs)
  case Nil
  then show ?case by (simp add: receive_def)
next
  case (Cons d ds)
  let ?c = "c\<lparr>responseBuffer := responseBuffer c @ d\<rparr>"
  have h: "handleData d c = ?c"
    unfolding handleData_def using Cons.prems
    by (intro handleLoop_stalled [where t = t and xs = "xs @ d"]) simp_all
  have "receive ds ?c = ?c\<lparr>responseBuffer := responseBuffer ?c @ concat ds\<rparr>"
    using Cons.prems by (intro Cons.IH [where xs = "xs @ d"]) simp_all
  then show ?case
    by (simp add: receive_def h)
qed

text \<open>Two PING commands on a fresh binary connection: requests 0 and 1.\<close>

definition twoBinaryCommands :: crabCacheConnection where
  "twoBinaryCommands = snd (sendCommand [1] (snd (sendCommand [1] (newConnection True))))"

text \<open>
  C3 at the first byte 0xFF. The \<open>try\<close> block throws \<open>Unknown response type: 0xff\<close>,
  but the \<open>catch\<close> of the same function returns \<open>null\<close>: extraction reports an
  incomplete frame. The connection stays connected, both requests stay queued and
  unsettled, and the two PONG replies that follow are only appended to the buffer.
\<close>

theorem unknown_tag_is_swallowed:
  "extractBinaryResponse_try [0xFF, 0x11, 0x11] = Inl (Error ''Unknown response type: 0xff'')
   \<and> extractBinaryResponse [0xFF, 0x11, 0x11] = None
   \<and> pendingResponses (receive [[0xFF], [0x11], [0x11]] twoBinaryCommands) = [0, 1]
   \<and> promises (receive [[0xFF], [0x11], [0x11]] twoBinaryCommands) 0 = Pending
   \<and> promises (receive [[0xFF], [0x11], [0x11]] twoBinaryCommands) 1 = Pending
   \<and> connected (receive [[0xFF], [0x11], [0x11]] twoBinaryCommands) = True
   \<and> responseBuffer (receive [[0xFF], [0x11], [0x11]] twoBinaryCommands) = [0xFF, 0x11, 0x11]"
proof -
  let ?c = "handleData [0xFF] twoBinaryCommands"
  have c: "?c = twoBinaryCommands\<lparr>responseBuffer := [0xFF]\<rparr>"
    by (simp add: handleData_def twoBinaryCommands_def sendCommand_def newConnection_def
        handleLoop.simps extractResponse_def extractBinaryResponse_def
        extractBinaryResponse_try_def Let_def)
  have "receive [[0x11], [0x11]] ?c = ?c\<lparr>responseBuffer := responseBuffer ?c @ concat [[0x11], [0x11]]\<rparr>"
    unfolding c
    by (rule unknown_tag_stalls [where t = "0xFF" and xs = "[]"])
       (simp_all add: twoBinaryCommands_def sendCommand_def newConnection_def
          simpleTag_def lengthTag_def Let_def)
  then have r: "receive [[0xFF], [0x11], [0x11]] twoBinaryCommands
                 = twoBinaryCommands\<lparr>responseBuffer := [0xFF, 0x11, 0x11]\<rparr>"
    by (simp add: receive_def c)
  have t: "extractBinaryResponse_try [0xFF, 0x11, 0x11] = Inl (Error ''Unknown response type: 0xff'')"
    by (simp add: extractBinaryResponse_try_def toString16_def hexDigit_def)
  have n: "extractBinaryResponse [0xFF, 0x11, 0x11] = None"
    by (simp add: extractBinaryResponse_def t)
  show ?thesis
    unfolding r using t n by (simp add: twoBinaryCommands_def sendCommand_def newConnection_def Let_def)
qed

subsection \<open>A failed pipeline write\<close>

lemma enqueuePipeline_effect:
  "enqueuePipeline bs c = (rs, c1) \<Longrightarrow>
     rs = [nextRequest c ..< nextRequest c + length bs]
     \<and> pendingResponses c1 = pendingResponses c @ rs
     \<and> promises c1 = promises c
     \<and> written c1 = written c
     \<and> nextRequest c1 = nextRequest c + length bs"
proof (induction bs arbitrary: c rs c1)
  case Nil
  then show ?case by simp
next
  case (Cons b bs)
  let ?r = "nextRequest c"
  let ?c = "c\<lparr>nextRequest := Suc ?r,
               timers := timers c @ [(?r, Error ''Pipeline command timeout'')],
               pendingResponses := pendingResponses c @ [?r]\<rparr>"
  obtain rs' c' where e: "enqueuePipeline bs ?c = (rs', c')"
    by (cases "enqueuePipeline bs ?c")
  from Cons.prems e have rs: "rs = ?r # rs'" and c1: "c1 = c'"
    by (simp_all add: Let_def)
  have u: "[?r ..< ?r + length (b # bs)] = ?r # [Suc ?r ..< Suc ?r + length bs]"
    by (simp add: upt_conv_Cons del: upt_Suc)
  from Cons.IH [OF e] show ?case
    unfolding u by (simp add: rs c1 del: upt_Suc)
qed

lemma pipelineWriteFailed_effect:
  "pendingResponses (pipelineWriteFailed e c) = []
   \<and> (\<forall>r. promises (pipelineWriteFailed e c) r =
          (if r \<in> set (pendingResponses c) \<and> promises c r = Pending
           then Rejected e else promises c r))
   \<and> connected (pipelineWriteFailed e c) = connected c"
proof (induction e c rule: pipelineWriteFailed.induct)
  case (1 e c)
  show ?case
  proof (cases "pendingResponses c = []")
    case True
    then have "pipelineWriteFailed e c = c" by (subst pipelineWriteFailed.simps) simp
    then show ?thesis using True by simp
  next
    case False
    let ?q = "pendingResponses c"
    let ?c = "pendingReject (last ?q) e (c\<lparr>pendingResponses := butlast ?q\<rparr>)"
    have l: "pipelineWriteFailed e c = pipelineWriteFailed e ?c"
      using False by (subst pipelineWriteFailed.simps) simp
    have q: "set ?q = insert (last ?q) (set (butlast ?q))"
      using False by (metis append_butlast_last_id list.simps(15) rotate1.simps(2) set_rotate1)
    have pc: "promises ?c = settle (last ?q) (Rejected e) (promises c)"
      and qc: "pendingResponses ?c = butlast ?q"
      and cc: "connected ?c = connected c"
      by (simp_all add: pendingReject_def)
    from "1.IH" [OF False] show ?thesis
      unfolding l pc qc cc by (auto simp: q settle_def)
  qed
qed

text \<open>
  C4, as the code has it. \<open>sendPipelineCommands\<close> with K blobs enqueues K new records in
  call order behind the records already queued, and issues one write of the concatenated
  blobs. When that write fails, the callback empties the whole queue: every queued
  request that was unsettled, the K new ones and the ones outstanding before the call
  alike, is rejected with the write error.
\<close>

theorem pipeline_write_failure_rejects_all:
  assumes "sendPipelineCommands commands c = (rs, c1)"
  shows "rs = [nextRequest c ..< nextRequest c + length commands]
       \<and> pendingResponses c1 = pendingResponses c @ rs
       \<and> written c1 = written c @ [concat commands]
       \<and> pendingResponses (pipelineWriteFailed e c1) = []
       \<and> (\<forall>r \<in> set (pendingResponses c @ rs).
            promises c r = Pending \<longrightarrow> promises (pipelineWriteFailed e c1) r = Rejected e)"
proof -
  obtain c0 where e0: "enqueuePipeline commands c = (rs, c0)"
    and c1: "c1 = c0\<lparr>written := written c0 @ [concat commands]\<rparr>"
    using assms by (auto simp: sendPipelineCommands_def Let_def split: prod.splits)
  note eff = enqueuePipeline_effect [OF e0]
  have q1: "pendingResponses c1 = pendingResponses c @ rs" and p1: "promises c1 = promises c"
    and w1: "written c1 = written c @ [concat commands]"
    using eff by (simp_all add: c1)
  show ?thesis
    using eff pipelineWriteFailed_effect [of e c1] by (simp add: q1 p1 w1)
qed

text \<open>One \<open>sendCommand\<close> on a fresh text connection: request 0 is outstanding.\<close>

definition oneOutstanding :: crabCacheConnection where
  "oneOutstanding = snd (sendCommand [80, 13, 10] (newConnection False))"

text \<open>
  C4 as stated fails: request 0 was outstanding before the pipeline call, and after the
  failed write it is neither queued nor unsettled.
\<close>

theorem pipeline_write_failure_counterexample:
  "\<not> (0 \<in> set (pendingResponses
          (pipelineWriteFailed (Error ''EPIPE'')
             (snd (sendPipelineCommands [[71, 13, 10], [72, 13, 10]] oneOutstanding))))
      \<and> promises
           (pipelineWriteFailed (Error ''EPIPE'')
              (snd (sendPipelineCommands [[71, 13, 10], [72, 13, 10]] oneOutstanding))) 0
          = Pending)"
  by (simp add: oneOutstanding_def sendCommand_def sendPipelineCommands_def newConnection_def
      pipelineWriteFailed.simps pendingReject_def settle_def Let_def)

theorem pipeline_write_failure_rejects_all_witness:
  "fst (sendPipelineCommands [[71, 13, 10], [72, 13, 10]] oneOutstanding) = [1, 2]
   \<and> pendingResponses (snd (sendPipelineCommands [[71, 13, 10], [72, 13, 10]] oneOutstanding))
        = [0, 1, 2]
   \<and> written (snd (sendPipelineCommands [[71, 13, 10], [72, 13, 10]] oneOutstanding))
        = [[80, 13, 10], [71, 13, 10, 72, 13, 10]]
   \<and> pendingResponses
        (pipelineWriteFailed (Error ''EPIPE'')
           (snd (sendPipelineCommands [[71, 13, 10], [72, 13, 10]] oneOutstanding))) = []
   \<and> promises
        (pipelineWriteFailed (Error ''EPIPE'')
           (snd (sendPipelineCommands [[71, 13, 10], [72, 13, 10]] oneOutstanding))) 0
        = Rejected (Error ''EPIPE'')
   \<and> promises
        (pipelineWriteFailed (Error ''EPIPE'')
           (snd (sendPipelineCommands [[71, 13, 10], [72, 13, 10]] oneOutstanding))) 2
        = Rejected (Error ''EPIPE'')"
proof -
  let ?s = "sendPipelineCommands [[71, 13, 10], [72, 13, 10]] oneOutstanding"
  have s: "?s = (fst ?s, snd ?s)" by simp
  have q: "pendingResponses oneOutstanding = [0]" and n: "nextRequest oneOutstanding = 1"
    and p: "promises oneOutstanding = (\<lambda>_. Pending)"
    and w: "written oneOutstanding = [[80, 13, 10]]"
    by (simp_all add: oneOutstanding_def sendCommand_def newConnection_def Let_def)
  have u: "[1 ..< 3] = [1, 2 :: nat]" by (simp add: upt_conv_Cons)
  show ?thesis
    using pipeline_write_failure_rejects_all [OF s, of "Error ''EPIPE''"]
    by (simp add: q n p w u)
qed

subsection \<open>Requests enqueued before any reply\<close>

text \<open>
  Calls of \<open>sendCommand\<close> and \<open>sendPipelineCommands\<close> on a new connection, with no reply
  and no timer in between, leave the buffer empty, the queued requests distinct and none
  of them settled: the state that the statements on frame matching start from.
\<close>

datatype sendCall = Command buffer | Pipeline "buffer list"

fun enqueue :: "sendCall list \<Rightarrow> crabCacheConnection \<Rightarrow> crabCacheConnection" where
  "enqueue [] c = c"
| "enqueue (Command blob # calls) c = enqueue calls (snd (sendCommand blob c))"
| "enqueue (Pipeline blobs # calls) c = enqueue calls (snd (sendPipelineCommands blobs c))"

definition awaitingReplies :: "crabCacheConnection \<Rightarrow> bool" where
  "awaitingReplies c \<longleftrightarrow>
     responseBuffer c = [] \<and> distinct (pendingResponses c)
     \<and> list_all (\<lambda>r. r < nextRequest c) (pendingResponses c)
     \<and> promises c = (\<lambda>r. Pending)"

lemma enqueuePipeline_buffer:
  "responseBuffer (snd (enqueuePipeline bs c)) = responseBuffer c
   \<and> useBinaryProtocol (snd (enqueuePipeline bs c)) = useBinaryProtocol c"
proof (induction bs arbitrary: c)
  case Nil
  then show ?case by simp
next
  case (Cons b bs)
  let ?c = "c\<lparr>nextRequest := Suc (nextRequest c),
               timers := timers c @ [(nextRequest c, Error ''Pipeline command timeout'')],
               pendingResponses := pendingResponses c @ [nextRequest c]\<rparr>"
  have "snd (enqueuePipeline (b # bs) c) = snd (enqueuePipeline bs ?c)"
    by (simp add: Let_def split: prod.splits)
  then show ?case using Cons.IH [of ?c] by simp
qed

lemma awaitingReplies_sendCommand:
  "awaitingReplies c \<Longrightarrow> awaitingReplies (snd (sendCommand blob c))"
  by (auto simp: awaitingReplies_def sendCommand_def Let_def list_all_iff less_Suc_eq)

lemma awaitingReplies_sendPipelineCommands:
  assumes "awaitingReplies c"
  shows "awaitingReplies (snd (sendPipelineCommands blobs c))"
proof -
  obtain rs c0 where e: "enqueuePipeline blobs c = (rs, c0)"
    by (cases "enqueuePipeline blobs c")
  note eff = enqueuePipeline_effect [OF e]
  have b: "responseBuffer c0 = responseBuffer c"
    using enqueuePipeline_buffer [of blobs c] e by simp
  have s: "snd (sendPipelineCommands blobs c) = c0\<lparr>written := written c0 @ [concat blobs]\<rparr>"
    by (simp add: sendPipelineCommands_def e)
  show ?thesis
    using assms eff b unfolding s awaitingReplies_def list_all_iff by auto
qed

lemma awaitingReplies_enqueue:
  "awaitingReplies c \<Longrightarrow> awaitingReplies (enqueue calls c)"
proof (induction calls arbitrary: c)
  case Nil
  then show ?case by simp
next
  case (Cons x calls)
  then show ?case
    by (cases x)
       (simp_all add: awaitingReplies_sendCommand awaitingReplies_sendPipelineCommands)
qed

lemma enqueued_before_any_reply:
  "responseBuffer (enqueue calls (newConnection bin)) = []
   \<and> distinct (pendingResponses (enqueue calls (newConnection bin)))
   \<and> (\<forall>r \<in> set (pendingResponses (enqueue calls (newConnection bin))).
         promises (enqueue calls (newConnection bin)) r = Pending)"
proof -
  have "awaitingReplies (newConnection bin)"
    by (simp add: awaitingReplies_def newConnection_def)
  then have "awaitingReplies (enqueue calls (newConnection bin))"
    by (rule awaitingReplies_enqueue)
  then show ?thesis by (simp add: awaitingReplies_def)
qed

section \<open>Connection pool (src/src/pool.ts)\<close>

text \<open>
  A \<open>CrabCacheConnection\<close> object is named by a number (its identity, compared with
  \<open>===\<close>); \<open>new CrabCacheConnection\<close> takes the next unused number. Dates are
  numbers. The pool sees of a connection only \<open>isConnected()\<close> and \<open>destroy()\<close>.
\<close>

record pooledConnection =
  connection :: nat
  inUse :: bool
  createdAt :: nat
  lastUsed :: nat
  healthCheckFailures :: nat

text \<open>\<open>ConnectionPoolMetrics\<close>; its field \<open>healthCheckFailures\<close> is \<open>failedHealthChecks\<close> here.\<close>

record connectionPoolMetrics =
  activeConnections :: nat
  idleConnections :: nat
  totalCreated :: nat
  poolHits :: nat
  poolMisses :: nat
  failedHealthChecks :: nat

datatype poolEvent =
    ConnectionCreated nat
  | ConnectionReleased nat
  | ConnectionRemoved nat
  | ConnectionError nat error
  | PoolWarmedUp nat

record connectionPool =
  poolSize :: nat
  connectionTimeout :: nat
  connections :: "pooledConnection list"
  metrics :: connectionPoolMetrics
  isConnected :: "nat \<Rightarrow> bool"
  destroyed :: "nat list"
  nextConnection :: nat
  emitted :: "poolEvent list"

definition newPool :: "nat \<Rightarrow> nat \<Rightarrow> connectionPool" where
  "newPool capacity ms =
     \<lparr>poolSize = capacity, connectionTimeout = ms, connections = [],
      metrics = \<lparr>activeConnections = 0, idleConnections = 0, totalCreated = 0,
                 poolHits = 0, poolMisses = 0, failedHealthChecks = 0\<rparr>,
      isConnected = (\<lambda>_. False), destroyed = [], nextConnection = 0, emitted = []\<rparr>"

text \<open>
  \<open>Array.find\<close> is \<open>List.find\<close>. Assigning to a field of the object that \<open>find\<close>
  returned changes the first matching element; \<open>findIndex\<close> with \<open>splice\<close> removes it.
\<close>

fun updateFirst :: "('a \<Rightarrow> bool) \<Rightarrow> ('a \<Rightarrow> 'a) \<Rightarrow> 'a list \<Rightarrow> 'a list" where
  "updateFirst P f [] = []"
| "updateFirst P f (x # xs) = (if P x then f x # xs else x # updateFirst P f xs)"

fun removeFirst :: "('a \<Rightarrow> bool) \<Rightarrow> 'a list \<Rightarrow> 'a list" where
  "removeFirst P [] = []"
| "removeFirst P (x # xs) = (if P x then xs else x # removeFirst P xs)"

definition updateMetrics :: "connectionPool \<Rightarrow> connectionPool" where
  "updateMetrics p =
     p\<lparr>metrics := (metrics p)
          \<lparr>activeConnections := length (filter inUse (connections p)),
           idleConnections := length (filter (\<lambda>conn. \<not> inUse conn) (connections p))\<rparr>\<rparr>"

definition emit :: "poolEvent \<Rightarrow> connectionPool \<Rightarrow> connectionPool" where
  "emit ev p = p\<lparr>emitted := emitted p @ [ev]\<rparr>"

text \<open>The predicate of both \<open>find\<close> calls in \<open>acquire\<close>.\<close>

definition available :: "connectionPool \<Rightarrow> pooledConnection \<Rightarrow> bool" where
  "available p conn \<longleftrightarrow> \<not> inUse conn \<and> isConnected p (connection conn)"

definition wraps :: "nat \<Rightarrow> pooledConnection \<Rightarrow> bool" where
  "wraps c conn \<longleftrightarrow> connection conn = c"

text \<open>The body shared by the two hit branches of \<open>acquire\<close>, at the date \<open>now\<close>.\<close>

definition takeIdle :: "nat \<Rightarrow> connectionPool \<Rightarrow> connectionPool" where
  "takeIdle now p =
     updateMetrics
       (p\<lparr>connections :=
            updateFirst (available p) (\<lambda>conn. conn\<lparr>inUse := True, lastUsed := now\<rparr>)
              (connections p),
          metrics := (metrics p)\<lparr>poolHits := poolHits (metrics p) + 1\<rparr>\<rparr>)"

text \<open>
  \<open>createConnection\<close>. The outcome of \<open>await connection.connect()\<close> is a parameter:
  \<open>None\<close> when the connect succeeds, the error it rejects with otherwise.
\<close>

definition createConnection ::
    "nat \<Rightarrow> error option \<Rightarrow> connectionPool \<Rightarrow> (error + nat) \<times> connectionPool" where
  "createConnection now connectResult p =
     (let c = nextConnection p in
      case connectResult of
        Some e \<Rightarrow> (Inl e, p\<lparr>nextConnection := Suc c\<rparr>)
      | None \<Rightarrow>
          (Inr c,
           emit (ConnectionCreated c)
             (updateMetrics
                (p\<lparr>nextConnection := Suc c,
                   isConnected := (isConnected p)(c := True),
                   connections := connections p @
                     [\<lparr>connection = c, inUse = True, createdAt = now, lastUsed = now,
                       healthCheckFailures = 0\<rparr>],
                   metrics := (metrics p)\<lparr>totalCreated := totalCreated (metrics p) + 1\<rparr>\<rparr>))))"

text \<open>
  \<open>acquire\<close> up to the point where it returns, throws, or starts to wait for a
  connection.
\<close>

datatype acquireResult = Returned nat | Thrown error | Waiting

definition acquire ::
    "nat \<Rightarrow> error option \<Rightarrow> connectionPool \<Rightarrow> acquireResult \<times> connectionPool" where
  "acquire now connectResult p =
     (case find (available p) (connections p) of
        Some idleConnection \<Rightarrow> (Returned (connection idleConnection), takeIdle now p)
      | None \<Rightarrow>
          if length (connections p) < poolSize p then
            (case createConnection now connectResult p of
               (Inl e, p1) \<Rightarrow> (Thrown e, p1)
             | (Inr c, p1) \<Rightarrow>
                 (Returned c,
                  p1\<lparr>metrics := (metrics p1)\<lparr>poolMisses := poolMisses (metrics p1) + 1\<rparr>\<rparr>))
          else (Waiting, p))"

text \<open>One run of \<open>checkForConnection\<close>: \<open>None\<close> when it re-arms the 10 ms timer.\<close>

definition checkForConnection :: "nat \<Rightarrow> connectionPool \<Rightarrow> nat option \<times> connectionPool" where
  "checkForConnection now p =
     (case find (available p) (connections p) of
        Some conn \<Rightarrow> (Some (connection conn), takeIdle now p)
      | None \<Rightarrow> (None, p))"

text \<open>
  The waiting branch of \<open>acquire\<close>, called at the date \<open>now\<close>; \<open>t\<close> counts the
  milliseconds since the call and \<open>env t\<close> is the pool as the rest of the program has
  left it at that time. The first check runs at once, the next ones 10 ms after the
  previous one; the timeout timer was armed before any of the poll timers, so at time
  \<open>timeout\<close> it runs first and rejects the promise. (The polling of the source goes on
  after the rejection; the result of \<open>acquire\<close> is settled by then.)
\<close>

function waitForConnection ::
    "nat \<Rightarrow> nat \<Rightarrow> nat \<Rightarrow> (nat \<Rightarrow> connectionPool) \<Rightarrow> acquireResult \<times> connectionPool" where
  "waitForConnection timeout now t env =
     (if 0 < t \<and> timeout \<le> t then (Thrown (Error ''Pool acquisition timeout''), env timeout)
      else (case checkForConnection (now + t) (env t) of
              (Some c, p) \<Rightarrow> (Returned c, p)
            | (None, p) \<Rightarrow> waitForConnection timeout now (t + 10) env))"
  by pat_completeness auto
termination
  by (relation "measure (\<lambda>(timeout, now, t, env). if t = 0 then timeout + 1 else timeout - t)")
     auto

declare waitForConnection.simps [simp del]

text \<open>\<open>release\<close> at the date \<open>now\<close>.\<close>

definition release :: "nat \<Rightarrow> nat \<Rightarrow> connectionPool \<Rightarrow> connectionPool" where
  "release now c p =
     (case find (wraps c) (connections p) of
        None \<Rightarrow> p
      | Some pooled \<Rightarrow>
          emit (ConnectionReleased c)
            (updateMetrics
               (p\<lparr>connections :=
                    updateFirst (wraps c) (\<lambda>conn. conn\<lparr>inUse := False, lastUsed := now\<rparr>)
                      (connections p)\<rparr>)))"

definition removeConnection :: "nat \<Rightarrow> connectionPool \<Rightarrow> connectionPool" where
  "removeConnection c p =
     (case find (wraps c) (connections p) of
        None \<Rightarrow> p
      | Some pooled \<Rightarrow>
          emit (ConnectionRemoved c)
            (updateMetrics (p\<lparr>connections := removeFirst (wraps c) (connections p)\<rparr>)))"

text \<open>\<open>connection.destroy()\<close>, as far as the pool is concerned.\<close>

definition destroy :: "nat \<Rightarrow> connectionPool \<Rightarrow> connectionPool" where
  "destroy c p = p\<lparr>destroyed := destroyed p @ [c]\<rparr>"

subsection \<open>Release\<close>

lemma updateFirst_nth:
  "i < length xs \<Longrightarrow> P (xs ! i) \<Longrightarrow> \<forall>j < i. \<not> P (xs ! j)
   \<Longrightarrow> updateFirst P f xs = xs[i := f (xs ! i)]"
proof (induction xs arbitrary: i)
  case Nil
  then show ?case by simp
next
  case (Cons x xs)
  show ?case
  proof (cases i)
    case 0
    with Cons.prems show ?thesis by simp
  next
    case (Suc k)
    have nx: "\<not> P x" using Cons.prems(3) Suc by auto
    have "updateFirst P f xs = xs[k := f (xs ! k)]"
      using Cons.prems Suc by (intro Cons.IH) auto
    then show ?thesis using nx Suc by simp
  qed
qed

lemma updateFirst_none:
  "\<forall>x \<in> set xs. \<not> P x \<Longrightarrow> updateFirst P f xs = xs"
  by (induction xs) auto

lemma find_None_set: "find P xs = None \<longleftrightarrow> (\<forall>x \<in> set xs. \<not> P x)"
  by (auto simp: find_None_iff)

lemma unique_is_first:
  assumes "i < length xs" "P (xs ! i)" "\<forall>j < length xs. j \<noteq> i \<longrightarrow> \<not> P (xs ! j)"
  shows "find P xs = Some (xs ! i)" and "\<forall>j < i. \<not> P (xs ! j)"
proof -
  show b: "\<forall>j < i. \<not> P (xs ! j)" using assms by auto
  show "find P xs = Some (xs ! i)"
    unfolding find_Some_iff using assms(1,2) b by blast
qed

text \<open>
  C10. When no pooled record wraps the connection, \<open>release\<close> returns the pool as it
  was: records, metrics, events, everything. When exactly one record wraps it, the record
  list changes only at that record, whose \<open>inUse\<close> becomes false and whose \<open>lastUsed\<close>
  becomes the current date, and the hit, miss and created counters keep their values.
\<close>

theorem release_frame:
  "((\<forall>conn \<in> set (connections p). connection conn \<noteq> c) \<longrightarrow> release now c p = p)
   \<and> (\<forall>i. i < length (connections p) \<and> connection (connections p ! i) = c
            \<and> (\<forall>j < length (connections p). j \<noteq> i \<longrightarrow> connection (connections p ! j) \<noteq> c)
        \<longrightarrow> connections (release now c p)
              = (connections p)[i := (connections p ! i)\<lparr>inUse := False, lastUsed := now\<rparr>]
          \<and> poolHits (metrics (release now c p)) = poolHits (metrics p)
          \<and> poolMisses (metrics (release now c p)) = poolMisses (metrics p)
          \<and> totalCreated (metrics (release now c p)) = totalCreated (metrics p))"
proof (intro conjI impI allI)
  assume "\<forall>conn \<in> set (connections p). connection conn \<noteq> c"
  then have "find (wraps c) (connections p) = None"
    by (auto simp: find_None_iff wraps_def)
  then show "release now c p = p" by (simp add: release_def)
next
  fix i
  assume a: "i < length (connections p) \<and> connection (connections p ! i) = c
            \<and> (\<forall>j < length (connections p). j \<noteq> i \<longrightarrow> connection (connections p ! j) \<noteq> c)"
  let ?xs = "connections p"
  have f: "find (wraps c) ?xs = Some (?xs ! i)" and b: "\<forall>j < i. \<not> wraps c (?xs ! j)"
    using unique_is_first [of i ?xs "wraps c"] a by (simp_all add: wraps_def)
  have u: "updateFirst (wraps c) (\<lambda>conn. conn\<lparr>inUse := False, lastUsed := now\<rparr>) ?xs
           = ?xs[i := (?xs ! i)\<lparr>inUse := False, lastUsed := now\<rparr>]"
    using a b by (intro updateFirst_nth) (simp_all add: wraps_def)
  show "connections (release now c p) = ?xs[i := (?xs ! i)\<lparr>inUse := False, lastUsed := now\<rparr>]"
    by (simp add: release_def f u emit_def updateMetrics_def)
  show "poolHits (metrics (release now c p)) = poolHits (metrics p)"
    by (simp add: release_def f emit_def updateMetrics_def)
  show "poolMisses (metrics (release now c p)) = poolMisses (metrics p)"
    by (simp add: release_def f emit_def updateMetrics_def)
  show "totalCreated (metrics (release now c p)) = totalCreated (metrics p)"
    by (simp add: release_def f emit_def updateMetrics_def)
qed

text \<open>A pool of capacity 2 after two calls of \<open>acquire\<close>: connections 0 and 1, both in use.\<close>

definition twoInUse :: connectionPool where
  "twoInUse = snd (acquire 5 None (snd (acquire 3 None (newPool 2 1000))))"

lemma twoInUse_eval:
  "twoInUse =
     \<lparr>poolSize = 2, connectionTimeout = 1000,
      connections =
        [\<lparr>connection = 0, inUse = True, createdAt = 3, lastUsed = 3, healthCheckFailures = 0\<rparr>,
         \<lparr>connection = 1, inUse = True, createdAt = 5, lastUsed = 5, healthCheckFailures = 0\<rparr>],
      metrics = \<lparr>activeConnections = 2, idleConnections = 0, totalCreated = 2,
                 poolHits = 0, poolMisses = 2, failedHealthChecks = 0\<rparr>,
      isConnected = (\<lambda>_. False)(0 := True, 1 := True), destroyed = [], nextConnection = 2,
      emitted = [ConnectionCreated 0, ConnectionCreated 1]\<rparr>"
  by (simp add: twoInUse_def acquire_def newPool_def createConnection_def emit_def
      updateMetrics_def available_def Let_def)

theorem release_frame_witness:
  "release 9 7 twoInUse = twoInUse
   \<and> connections (release 9 1 twoInUse)
       = [\<lparr>connection = 0, inUse = True, createdAt = 3, lastUsed = 3, healthCheckFailures = 0\<rparr>,
          \<lparr>connection = 1, inUse = False, createdAt = 5, lastUsed = 9, healthCheckFailures = 0\<rparr>]
   \<and> poolHits (metrics (release 9 1 twoInUse)) = 0
   \<and> poolMisses (metrics (release 9 1 twoInUse)) = 2
   \<and> totalCreated (metrics (release 9 1 twoInUse)) = 2"
proof -
  have a: "release 9 7 twoInUse = twoInUse"
    using release_frame [of twoInUse 7 9, THEN conjunct1]
    by (simp add: twoInUse_eval)
  have h: "1 < length (connections twoInUse) \<and> connection (connections twoInUse ! 1) = 1
           \<and> (\<forall>j < length (connections twoInUse). j \<noteq> 1 \<longrightarrow> connection (connections twoInUse ! j) \<noteq> 1)"
    by (auto simp: twoInUse_eval less_Suc_eq)
  show ?thesis
    using a release_frame [of twoInUse 1 9, THEN conjunct2, rule_format, OF h]
    by (simp add: twoInUse_eval)
qed

subsection \<open>Acquire\<close>

lemma takeIdle_fields:
  "poolHits (metrics (takeIdle now p)) = poolHits (metrics p) + 1"
  "poolMisses (metrics (takeIdle now p)) = poolMisses (metrics p)"
  "totalCreated (metrics (takeIdle now p)) = totalCreated (metrics p)"
  "connections (takeIdle now p)
     = updateFirst (available p) (\<lambda>conn. conn\<lparr>inUse := True, lastUsed := now\<rparr>) (connections p)"
  "isConnected (takeIdle now p) = isConnected p"
  "nextConnection (takeIdle now p) = nextConnection p"
  by (simp_all add: takeIdle_def updateMetrics_def)

lemma wait_times_out:
  assumes "\<forall>u. t \<le> u \<and> (u = 0 \<or> u < timeout) \<and> u mod 10 = 0
             \<longrightarrow> find (available (env u)) (connections (env u)) = None"
    and "t mod 10 = 0"
  shows "fst (waitForConnection timeout now t env) = Thrown (Error ''Pool acquisition timeout'')"
  using assms
proof (induction timeout now t env rule: waitForConnection.induct)
  case (1 timeout now t env)
  show ?case
  proof (cases "0 < t \<and> timeout \<le> t")
    case True
    then show ?thesis by (subst waitForConnection.simps) simp
  next
    case False
    then have "t = 0 \<or> t < timeout" by auto
    then have n: "find (available (env t)) (connections (env t)) = None"
      using "1.prems" by auto
    then have c: "checkForConnection (now + t) (env t) = (None, env t)"
      by (simp add: checkForConnection_def)
    have "fst (waitForConnection timeout now (t + 10) env) = Thrown (Error ''Pool acquisition timeout'')"
      using "1.prems" by (intro "1.IH" [OF False c [symmetric] refl]) auto
    then show ?thesis
      using False c by (subst waitForConnection.simps) simp
  qed
qed

lemma wait_finds:
  assumes "\<forall>i. j \<le> i \<and> i < k \<longrightarrow> find (available (env (10 * i))) (connections (env (10 * i))) = None"
    and "find (available (env (10 * k))) (connections (env (10 * k))) = Some r"
    and "k = 0 \<or> 10 * k < timeout"
    and "j \<le> k"
  shows "waitForConnection timeout now (10 * j) env
           = (Returned (connection r), takeIdle (now + 10 * k) (env (10 * k)))"
  using assms
proof (induction "k - j" arbitrary: j)
  case 0
  then have jk: "j = k" by simp
  have nt: "\<not> (0 < 10 * k \<and> timeout \<le> 10 * k)"
    using "0.prems"(3) by auto
  have c: "checkForConnection (now + 10 * k) (env (10 * k))
            = (Some (connection r), takeIdle (now + 10 * k) (env (10 * k)))"
    using "0.prems"(2) by (simp add: checkForConnection_def)
  show ?case
    unfolding jk using nt c by (subst waitForConnection.simps) simp
next
  case (Suc d)
  then have lt: "j < k" by simp
  then have "10 * j < timeout" using Suc.prems(3) by auto
  then have nt: "\<not> (0 < 10 * j \<and> timeout \<le> 10 * j)" by simp
  have "find (available (env (10 * j))) (connections (env (10 * j))) = None"
    using Suc.prems(1) lt by simp
  then have c: "checkForConnection (now + 10 * j) (env (10 * j)) = (None, env (10 * j))"
    by (simp add: checkForConnection_def)
  have "waitForConnection timeout now (10 * Suc j) env
          = (Returned (connection r), takeIdle (now + 10 * k) (env (10 * k)))"
    using Suc.hyps(2) Suc.prems lt by (intro Suc.hyps(1)) auto
  then have n: "waitForConnection timeout now (10 * j + 10) env
          = (Returned (connection r), takeIdle (now + 10 * k) (env (10 * k)))"
    by (simp add: add.commute)
  show ?case
    using nt c n by (subst waitForConnection.simps) simp
qed

text \<open>
  C5. The three cases of \<open>acquire\<close>.
  (1) When \<open>find\<close> yields an idle connected record, its connection is returned, that
  record alone is changed (in use, last used now), and the hit counter grows by one.
  (2) Otherwise, below capacity and with a connect that succeeds, a new connection is
  created and returned, its record is appended in use, and the created and miss counters
  grow by one.
  (3) Otherwise the call waits and the pool is untouched. With polls at 0, 10, 20, ...
  milliseconds: when no poll before the connection timeout finds an idle connected
  record, the call fails with \<open>Pool acquisition timeout\<close>; when the poll at 10 k
  milliseconds, before the timeout, is the first to find one, the call returns it then.
\<close>

theorem acquire_cases:
  "(\<forall>r. find (available p) (connections p) = Some r \<longrightarrow>
        fst (acquire now connectResult p) = Returned (connection r)
      \<and> (\<exists>i < length (connections p).
            connections p ! i = r
          \<and> connections (snd (acquire now connectResult p))
              = (connections p)[i := r\<lparr>inUse := True, lastUsed := now\<rparr>])
      \<and> poolHits (metrics (snd (acquire now connectResult p))) = poolHits (metrics p) + 1
      \<and> poolMisses (metrics (snd (acquire now connectResult p))) = poolMisses (metrics p))
   \<and> (find (available p) (connections p) = None \<and> length (connections p) < poolSize p \<longrightarrow>
        fst (acquire now None p) = Returned (nextConnection p)
      \<and> connections (snd (acquire now None p))
          = connections p @
            [\<lparr>connection = nextConnection p, inUse = True, createdAt = now, lastUsed = now,
              healthCheckFailures = 0\<rparr>]
      \<and> isConnected (snd (acquire now None p)) (nextConnection p)
      \<and> totalCreated (metrics (snd (acquire now None p))) = totalCreated (metrics p) + 1
      \<and> poolMisses (metrics (snd (acquire now None p))) = poolMisses (metrics p) + 1
      \<and> poolHits (metrics (snd (acquire now None p))) = poolHits (metrics p))
   \<and> (find (available p) (connections p) = None \<and> \<not> length (connections p) < poolSize p \<longrightarrow>
        acquire now connectResult p = (Waiting, p)
      \<and> (\<forall>env. env 0 = p
             \<and> (\<forall>t. 0 < t \<and> t < connectionTimeout p \<and> t mod 10 = 0
                    \<longrightarrow> find (available (env t)) (connections (env t)) = None)
           \<longrightarrow> fst (waitForConnection (connectionTimeout p) now 0 env)
                 = Thrown (Error ''Pool acquisition timeout''))
      \<and> (\<forall>env k r. env 0 = p \<and> 10 * k < connectionTimeout p
             \<and> (\<forall>i < k. find (available (env (10 * i))) (connections (env (10 * i))) = None)
             \<and> find (available (env (10 * k))) (connections (env (10 * k))) = Some r
           \<longrightarrow> waitForConnection (connectionTimeout p) now 0 env
                 = (Returned (connection r), takeIdle (now + 10 * k) (env (10 * k)))))"
proof (intro conjI impI allI)
  fix r
  assume f: "find (available p) (connections p) = Some r"
  then obtain i where i: "i < length (connections p)" "available p (connections p ! i)"
    "r = connections p ! i" "\<forall>j < i. \<not> available p (connections p ! j)"
    unfolding find_Some_iff by blast
  have u: "updateFirst (available p) (\<lambda>conn. conn\<lparr>inUse := True, lastUsed := now\<rparr>) (connections p)
           = (connections p)[i := r\<lparr>inUse := True, lastUsed := now\<rparr>]"
    using i updateFirst_nth [of i "connections p" "available p"] by simp
  have a: "acquire now connectResult p = (Returned (connection r), takeIdle now p)"
    using f by (simp add: acquire_def)
  show "fst (acquire now connectResult p) = Returned (connection r)"
    by (simp add: a)
  show "\<exists>i < length (connections p).
            connections p ! i = r
          \<and> connections (snd (acquire now connectResult p))
              = (connections p)[i := r\<lparr>inUse := True, lastUsed := now\<rparr>]"
    using i(1,3) u by (auto simp: a takeIdle_fields)
  show "poolHits (metrics (snd (acquire now connectResult p))) = poolHits (metrics p) + 1"
    by (simp add: a takeIdle_fields)
  show "poolMisses (metrics (snd (acquire now connectResult p))) = poolMisses (metrics p)"
    by (simp add: a takeIdle_fields)
next
  assume h: "find (available p) (connections p) = None \<and> length (connections p) < poolSize p"
  then have a: "acquire now None p =
      (case createConnection now None p of
         (Inl e, p1) \<Rightarrow> (Thrown e, p1)
       | (Inr c, p1) \<Rightarrow>
           (Returned c, p1\<lparr>metrics := (metrics p1)\<lparr>poolMisses := poolMisses (metrics p1) + 1\<rparr>\<rparr>))"
    by (simp add: acquire_def)
  show "fst (acquire now None p) = Returned (nextConnection p)"
    by (simp add: a createConnection_def Let_def)
  show "connections (snd (acquire now None p))
          = connections p @
            [\<lparr>connection = nextConnection p, inUse = True, createdAt = now, lastUsed = now,
              healthCheckFailures = 0\<rparr>]"
    by (simp add: a createConnection_def Let_def emit_def updateMetrics_def)
  show "isConnected (snd (acquire now None p)) (nextConnection p)"
    by (simp add: a createConnection_def Let_def emit_def updateMetrics_def)
  show "totalCreated (metrics (snd (acquire now None p))) = totalCreated (metrics p) + 1"
    by (simp add: a createConnection_def Let_def emit_def updateMetrics_def)
  show "poolMisses (metrics (snd (acquire now None p))) = poolMisses (metrics p) + 1"
    by (simp add: a createConnection_def Let_def emit_def updateMetrics_def)
  show "poolHits (metrics (snd (acquire now None p))) = poolHits (metrics p)"
    by (simp add: a createConnection_def Let_def emit_def updateMetrics_def)
next
  assume h: "find (available p) (connections p) = None \<and> \<not> length (connections p) < poolSize p"
  then show "acquire now connectResult p = (Waiting, p)"
    by (simp add: acquire_def)
  {
    fix env
    assume e: "env 0 = p
             \<and> (\<forall>t. 0 < t \<and> t < connectionTimeout p \<and> t mod 10 = 0
                    \<longrightarrow> find (available (env t)) (connections (env t)) = None)"
    have "\<forall>u. 0 \<le> u \<and> (u = 0 \<or> u < connectionTimeout p) \<and> u mod 10 = 0
             \<longrightarrow> find (available (env u)) (connections (env u)) = None"
    proof (intro allI impI)
      fix u
      assume "0 \<le> u \<and> (u = 0 \<or> u < connectionTimeout p) \<and> u mod 10 = 0"
      then show "find (available (env u)) (connections (env u)) = None"
        using e h by (cases "u = 0") auto
    qed
    then show "fst (waitForConnection (connectionTimeout p) now 0 env)
                 = Thrown (Error ''Pool acquisition timeout'')"
      by (intro wait_times_out) auto
  }
  {
    fix env k r
    assume e: "env 0 = p \<and> 10 * k < connectionTimeout p
             \<and> (\<forall>i < k. find (available (env (10 * i))) (connections (env (10 * i))) = None)
             \<and> find (available (env (10 * k))) (connections (env (10 * k))) = Some r"
    have "waitForConnection (connectionTimeout p) now (10 * 0) env
                 = (Returned (connection r), takeIdle (now + 10 * k) (env (10 * k)))"
      using e by (intro wait_finds) auto
    then show "waitForConnection (connectionTimeout p) now 0 env
                 = (Returned (connection r), takeIdle (now + 10 * k) (env (10 * k)))"
      by simp
  }
qed

text \<open>The same pool after connection 1 was released.\<close>

definition oneIdle :: connectionPool where
  "oneIdle = release 9 1 twoInUse"

lemma oneIdle_eval:
  "oneIdle =
     \<lparr>poolSize = 2, connectionTimeout = 1000,
      connections =
        [\<lparr>connection = 0, inUse = True, createdAt = 3, lastUsed = 3, healthCheckFailures = 0\<rparr>,
         \<lparr>connection = 1, inUse = False, createdAt = 5, lastUsed = 9, healthCheckFailures = 0\<rparr>],
      metrics = \<lparr>activeConnections = 1, idleConnections = 1, totalCreated = 2,
                 poolHits = 0, poolMisses = 2, failedHealthChecks = 0\<rparr>,
      isConnected = (\<lambda>_. False)(0 := True, 1 := True), destroyed = [], nextConnection = 2,
      emitted = [ConnectionCreated 0, ConnectionCreated 1, ConnectionReleased 1]\<rparr>"
  by (simp add: oneIdle_def twoInUse_eval release_def wraps_def emit_def updateMetrics_def)

theorem acquire_cases_witness:
  "fst (acquire 12 None oneIdle) = Returned 1
   \<and> poolHits (metrics (snd (acquire 12 None oneIdle))) = 1
   \<and> poolMisses (metrics (snd (acquire 12 None oneIdle))) = 2
   \<and> fst (acquire 3 None (newPool 2 1000)) = Returned 0
   \<and> connections (snd (acquire 3 None (newPool 2 1000)))
       = [\<lparr>connection = 0, inUse = True, createdAt = 3, lastUsed = 3, healthCheckFailures = 0\<rparr>]
   \<and> poolMisses (metrics (snd (acquire 3 None (newPool 2 1000)))) = 1
   \<and> acquire 12 None twoInUse = (Waiting, twoInUse)
   \<and> fst (waitForConnection 1000 12 0 (\<lambda>t. twoInUse)) = Thrown (Error ''Pool acquisition timeout'')
   \<and> fst (waitForConnection 1000 12 0 (\<lambda>t. if t < 20 then twoInUse else oneIdle)) = Returned 1"
proof -
  let ?r = "\<lparr>connection = 1, inUse = False, createdAt = 5, lastUsed = 9, healthCheckFailures = 0\<rparr>"
  have f1: "find (available oneIdle) (connections oneIdle) = Some ?r"
    by (simp add: oneIdle_eval available_def)
  have h1: "fst (acquire 12 None oneIdle) = Returned 1
     \<and> poolHits (metrics (snd (acquire 12 None oneIdle))) = 1
     \<and> poolMisses (metrics (snd (acquire 12 None oneIdle))) = 2"
    using acquire_cases [of oneIdle 12 None, THEN conjunct1, rule_format, OF f1]
    by (simp add: oneIdle_eval)
  have f2: "find (available (newPool 2 1000)) (connections (newPool 2 1000)) = None
            \<and> length (connections (newPool 2 1000)) < poolSize (newPool 2 1000)"
    by (simp add: newPool_def)
  have h2: "fst (acquire 3 None (newPool 2 1000)) = Returned 0
     \<and> connections (snd (acquire 3 None (newPool 2 1000)))
       = [\<lparr>connection = 0, inUse = True, createdAt = 3, lastUsed = 3, healthCheckFailures = 0\<rparr>]
     \<and> poolMisses (metrics (snd (acquire 3 None (newPool 2 1000)))) = 1"
    using acquire_cases [of "newPool 2 1000" 3 None, THEN conjunct2, THEN conjunct1, rule_format, OF f2]
    by (simp add: newPool_def)
  have f3: "find (available twoInUse) (connections twoInUse) = None
            \<and> \<not> length (connections twoInUse) < poolSize twoInUse"
    by (simp add: twoInUse_eval available_def)
  note c3 = acquire_cases [of twoInUse 12 None, THEN conjunct2, THEN conjunct2, rule_format, OF f3]
  have t: "connectionTimeout twoInUse = 1000" by (simp add: twoInUse_eval)
  have h3: "acquire 12 None twoInUse = (Waiting, twoInUse)"
    using c3 by blast
  have e4: "(\<lambda>t. twoInUse) 0 = twoInUse
             \<and> (\<forall>t. 0 < t \<and> t < connectionTimeout twoInUse \<and> t mod 10 = 0
                    \<longrightarrow> find (available ((\<lambda>t. twoInUse) t)) (connections ((\<lambda>t. twoInUse) t)) = None)"
    using f3 by simp
  have h4: "fst (waitForConnection 1000 12 0 (\<lambda>t. twoInUse)) = Thrown (Error ''Pool acquisition timeout'')"
    using c3 [THEN conjunct2, THEN conjunct1, rule_format, OF e4] by (simp add: t)
  let ?env = "\<lambda>t::nat. if t < 20 then twoInUse else oneIdle"
  have e5: "?env 0 = twoInUse \<and> 10 * 2 < connectionTimeout twoInUse
             \<and> (\<forall>i < 2. find (available (?env (10 * i))) (connections (?env (10 * i))) = None)
             \<and> find (available (?env (10 * 2))) (connections (?env (10 * 2))) = Some ?r"
    using f1 f3 by (auto simp: t less_Suc_eq numeral_2_eq_2)
  have h5: "fst (waitForConnection 1000 12 0 ?env) = Returned 1"
    using c3 [THEN conjunct2, THEN conjunct2, rule_format, OF e5] by (simp add: t)
  show ?thesis using h1 h2 h3 h4 h5 by simp
qed

subsection \<open>Health check, warm-up and the events of a connection\<close>

definition countFailure :: "nat \<Rightarrow> connectionPool \<Rightarrow> connectionPool" where
  "countFailure c p =
     p\<lparr>connections :=
          updateFirst (wraps c)
            (\<lambda>conn. conn\<lparr>healthCheckFailures := healthCheckFailures conn + 1\<rparr>) (connections p),
        metrics := (metrics p)\<lparr>failedHealthChecks := failedHealthChecks (metrics p) + 1\<rparr>\<rparr>"

definition handleConnectionError :: "nat \<Rightarrow> error \<Rightarrow> connectionPool \<Rightarrow> connectionPool" where
  "handleConnectionError c e p =
     emit (ConnectionError c e)
       (case find (wraps c) (connections p) of
          None \<Rightarrow> p
        | Some pooled \<Rightarrow>
            (let p1 = countFailure c p in
             if healthCheckFailures pooled + 1 > 3 then destroy c (removeConnection c p1)
             else p1))"

text \<open>
  The function that \<open>performHealthCheck\<close> maps over the idle records, run to its end for
  the record \<open>pooled\<close>. \<open>ok\<close> says that the record's connection was connected and that
  the PING sent through it was answered; otherwise the \<open>catch\<close> block runs. A record
  object holds one connection and a connection belongs to one record, so the fields of
  \<open>pooled\<close> are written at the record that wraps its connection.
\<close>

definition probeRecord :: "bool \<Rightarrow> pooledConnection \<Rightarrow> connectionPool \<Rightarrow> connectionPool" where
  "probeRecord ok pooled p =
     (let c = connection pooled in
      if ok then
        p\<lparr>connections :=
             updateFirst (wraps c) (\<lambda>conn. conn\<lparr>healthCheckFailures := 0\<rparr>) (connections p)\<rparr>
      else
        (let p1 = countFailure c p in
         if healthCheckFailures pooled + 1 > 3 then destroy c (removeConnection c p1)
         else p1))"

text \<open>
  \<open>performHealthCheck\<close>; \<open>probe c\<close> says whether the PING through connection \<open>c\<close> is
  answered. The probes of the source end in any order; each touches its own record only,
  and they are run here in the order of the list.
\<close>

definition probeOk :: "connectionPool \<Rightarrow> (nat \<Rightarrow> bool) \<Rightarrow> pooledConnection \<Rightarrow> bool" where
  "probeOk p probe pooled \<longleftrightarrow>
     isConnected p (connection pooled) \<and> probe (connection pooled)"

definition performHealthCheck :: "(nat \<Rightarrow> bool) \<Rightarrow> connectionPool \<Rightarrow> connectionPool" where
  "performHealthCheck probe p =
     updateMetrics
       (fold (\<lambda>pooled. probeRecord (probeOk p probe pooled) pooled)
          (filter (\<lambda>conn. \<not> inUse conn) (connections p)) p)"

text \<open>
  The loop of \<open>warmUp\<close>: each created connection is released as soon as it exists.
  \<open>connectResult c\<close> is the outcome of the connect of connection \<open>c\<close>; the first error
  rejects \<open>Promise.all\<close>, the other creations still run.
\<close>

fun createAndRelease ::
    "nat \<Rightarrow> (nat \<Rightarrow> error option) \<Rightarrow> nat \<Rightarrow> connectionPool \<Rightarrow> error option \<times> connectionPool" where
  "createAndRelease now connectResult 0 p = (None, p)"
| "createAndRelease now connectResult (Suc k) p =
     (case createConnection now (connectResult (nextConnection p)) p of
        (Inl e, p1) \<Rightarrow> (Some e, snd (createAndRelease now connectResult k p1))
      | (Inr c, p1) \<Rightarrow> createAndRelease now connectResult k (release now c p1))"

text \<open>
  \<open>warmUp\<close> for a whole number \<open>minConnections\<close>; the result is the error thrown, if
  any. \<open>connectionsToCreate\<close> is the constant of that name in the source.
\<close>

definition connectionsToCreate :: "int \<Rightarrow> connectionPool \<Rightarrow> int" where
  "connectionsToCreate minConnections p =
     min minConnections (int (poolSize p)) - int (length (connections p))"

definition warmUp ::
    "nat \<Rightarrow> int \<Rightarrow> (nat \<Rightarrow> error option) \<Rightarrow> connectionPool \<Rightarrow> error option \<times> connectionPool" where
  "warmUp now minConnections connectResult p =
     (if connectionsToCreate minConnections p \<le> 0 then (None, p)
      else
        (case createAndRelease now connectResult
                (nat (connectionsToCreate minConnections p)) p of
           (Some e, p1) \<Rightarrow> (Some e, p1)
         | (None, p1) \<Rightarrow> (None, emit (PoolWarmedUp (length (connections p1))) p1)))"

text \<open>
  What can happen to a pool, one step at a time, with the connection handed to a caller
  when there is one: the start of an \<open>acquire\<close>, a poll of a waiting \<open>acquire\<close>, a
  \<open>release\<close>, a health check, a warm-up, and the \<open>error\<close> and \<open>close\<close> events of a
  connection (which first clear its connected flag).
\<close>

datatype poolOp =
    Acquire nat "error option"
  | Poll nat
  | Release nat nat
  | HealthCheck "nat \<Rightarrow> bool"
  | WarmUp nat int "nat \<Rightarrow> error option"
  | SocketError nat error
  | SocketClose nat

fun poolStep :: "poolOp \<Rightarrow> connectionPool \<Rightarrow> nat option \<times> connectionPool" where
  "poolStep (Acquire now connectResult) p =
     (case acquire now connectResult p of
        (Returned c, p1) \<Rightarrow> (Some c, p1)
      | (Thrown e, p1) \<Rightarrow> (None, p1)
      | (Waiting, p1) \<Rightarrow> (None, p1))"
| "poolStep (Poll now) p = checkForConnection now p"
| "poolStep (Release now c) p = (None, release now c p)"
| "poolStep (HealthCheck probe) p = (None, performHealthCheck probe p)"
| "poolStep (WarmUp now n connectResult) p = (None, snd (warmUp now n connectResult p))"
| "poolStep (SocketError c e) p =
     (None, handleConnectionError c e (p\<lparr>isConnected := (isConnected p)(c := False)\<rparr>))"
| "poolStep (SocketClose c) p =
     (None, removeConnection c (p\<lparr>isConnected := (isConnected p)(c := False)\<rparr>))"

text \<open>The connections handed to callers during a run of steps.\<close>

fun handedOut :: "poolOp list \<Rightarrow> connectionPool \<Rightarrow> nat list" where
  "handedOut [] p = []"
| "handedOut (x # xs) p =
     (case poolStep x p of
        (None, p1) \<Rightarrow> handedOut xs p1
      | (Some c, p1) \<Rightarrow> c # handedOut xs p1)"

text \<open>
  Every record wraps its own connection, and every connection in the pool was created
  by the pool. A new pool is well formed and every step keeps it so.
\<close>

definition wellFormed :: "connectionPool \<Rightarrow> bool" where
  "wellFormed p \<longleftrightarrow>
     distinct (map connection (connections p))
     \<and> list_all (\<lambda>conn. connection conn < nextConnection p) (connections p)"

subsection \<open>What a health check does to the records\<close>

lemma updateFirst_wraps:
  fixes xs :: "pooledConnection list"
  shows "distinct (map connection xs) \<Longrightarrow> (\<And>r. connection (f r) = connection r) \<Longrightarrow>
   updateFirst (wraps c) f xs = map (\<lambda>r. if connection r = c then f r else r) xs"
proof (induction xs)
  case Nil
  then show ?case by simp
next
  case (Cons x xs)
  show ?case
  proof (cases "connection x = c")
    case True
    then have "\<forall>r \<in> set xs. connection r \<noteq> c" using Cons.prems(1) by (auto simp: image_iff)
    then have "map (\<lambda>r. if connection r = c then f r else r) xs = xs"
      by (induction xs) auto
    then show ?thesis using True by (simp add: wraps_def)
  next
    case False
    then show ?thesis using Cons by (simp add: wraps_def)
  qed
qed

lemma removeFirst_wraps:
  fixes xs :: "pooledConnection list"
  shows "distinct (map connection xs) \<Longrightarrow>
   removeFirst (wraps c) xs = filter (\<lambda>r. connection r \<noteq> c) xs"
proof (induction xs)
  case Nil
  then show ?case by simp
next
  case (Cons x xs)
  show ?case
  proof (cases "connection x = c")
    case True
    then have "\<forall>r \<in> set xs. connection r \<noteq> c" using Cons.prems(1) by (auto simp: image_iff)
    then have "filter (\<lambda>r. connection r \<noteq> c) xs = xs"
      by (induction xs) auto
    then show ?thesis using True by (simp add: wraps_def)
  next
    case False
    then show ?thesis using Cons by (simp add: wraps_def)
  qed
qed

lemma removeFirst_none:
  "\<forall>x \<in> set xs. \<not> P x \<Longrightarrow> removeFirst P xs = xs"
  by (induction xs) auto

lemma connections_removeConnection:
  "connections (removeConnection c p) = removeFirst (wraps c) (connections p)"
proof (cases "find (wraps c) (connections p)")
  case None
  then have "\<forall>r \<in> set (connections p). \<not> wraps c r" by (auto simp: find_None_iff)
  then have "removeFirst (wraps c) (connections p) = connections p"
    by (rule removeFirst_none)
  then show ?thesis using None by (simp add: removeConnection_def)
next
  case (Some a)
  then show ?thesis by (simp add: removeConnection_def emit_def updateMetrics_def)
qed

text \<open>
  The fate of a probed record: reset on success, counted on failure, and dropped when
  the count then exceeds 3. An in-use record is not probed and stays as it is.
\<close>

definition verdict :: "bool \<Rightarrow> pooledConnection \<Rightarrow> pooledConnection option" where
  "verdict ok r =
     (if ok then Some (r\<lparr>healthCheckFailures := 0\<rparr>)
      else if healthCheckFailures r + 1 > 3 then None
      else Some (r\<lparr>healthCheckFailures := healthCheckFailures r + 1\<rparr>))"

definition checked :: "connectionPool \<Rightarrow> (nat \<Rightarrow> bool) \<Rightarrow> pooledConnection \<Rightarrow> pooledConnection option" where
  "checked p probe r = (if inUse r then Some r else verdict (probeOk p probe r) r)"

lemma map_filter_eqI:
  "(\<And>x. x \<in> set xs \<Longrightarrow> f x = g x) \<Longrightarrow> List.map_filter f xs = List.map_filter g xs"
  by (induction xs) (auto simp: map_filter_simps split: option.splits)

lemma map_filter_compose:
  "List.map_filter g (List.map_filter f xs)
     = List.map_filter (\<lambda>x. case f x of None \<Rightarrow> None | Some y \<Rightarrow> g y) xs"
  by (induction xs) (auto simp: map_filter_simps split: option.splits)

lemma map_as_map_filter: "map g xs = List.map_filter (\<lambda>x. Some (g x)) xs"
  by (induction xs) (auto simp: map_filter_simps)

lemma filter_as_map_filter:
  "filter P xs = List.map_filter (\<lambda>x. if P x then Some x else None) xs"
  by (induction xs) (auto simp: map_filter_simps)

lemma verdict_connection: "verdict ok r = Some r' \<Longrightarrow> connection r' = connection r"
  by (auto simp: verdict_def split: if_splits)

lemma distinct_connection_map_filter:
  fixes xs :: "pooledConnection list"
  assumes "distinct (map connection xs)"
    and "\<And>x y. f x = Some y \<Longrightarrow> connection y = connection x"
  shows "distinct (map connection (List.map_filter f xs))"
    and "connection ` set (List.map_filter f xs) \<subseteq> connection ` set xs"
proof -
  have "distinct (map connection (List.map_filter f xs))
        \<and> connection ` set (List.map_filter f xs) \<subseteq> connection ` set xs"
    using assms(1)
  proof (induction xs)
    case Nil
    then show ?case by (simp add: map_filter_simps)
  next
    case (Cons x xs)
    then have ih: "distinct (map connection (List.map_filter f xs))"
      and sub: "connection ` set (List.map_filter f xs) \<subseteq> connection ` set xs"
      by auto
    have nx: "connection x \<notin> connection ` set xs" using Cons.prems by auto
    show ?case
    proof (cases "f x")
      case None
      then show ?thesis using ih sub by (auto simp: map_filter_simps)
    next
      case (Some y)
      then have "connection y = connection x" by (rule assms(2))
      then show ?thesis using ih sub nx Some by (auto simp: map_filter_simps)
    qed
  qed
  then show "distinct (map connection (List.map_filter f xs))"
    and "connection ` set (List.map_filter f xs) \<subseteq> connection ` set xs" by blast+
qed

lemma map_connection_incr:
  fixes xs :: "pooledConnection list"
  shows "map connection
           (map (\<lambda>r. if connection r = c
                     then r\<lparr>healthCheckFailures := healthCheckFailures r + 1\<rparr> else r) xs)
         = map connection xs"
  by (induction xs) auto

lemma filter_after_incr:
  fixes xs :: "pooledConnection list"
  shows "filter (\<lambda>r. connection r \<noteq> c)
           (map (\<lambda>r. if connection r = c
                     then r\<lparr>healthCheckFailures := healthCheckFailures r + 1\<rparr> else r) xs)
         = filter (\<lambda>r. connection r \<noteq> c) xs"
  by (induction xs) auto

lemma probeRecord_connections:
  assumes d: "distinct (map connection (connections p))" and a: "a \<in> set (connections p)"
  shows "connections (probeRecord ok a p)
         = List.map_filter (\<lambda>r. if r = a then verdict ok a else Some r) (connections p)"
proof -
  let ?xs = "connections p"
  let ?c = "connection a"
  have same: "\<And>r. r \<in> set ?xs \<Longrightarrow> (connection r = ?c) = (r = a)"
    using d a by (meson distinct_map inj_onD)
  show ?thesis
  proof (cases ok)
    case True
    have "connections (probeRecord ok a p)
          = map (\<lambda>r. if connection r = ?c then r\<lparr>healthCheckFailures := 0\<rparr> else r) ?xs"
      using True d by (simp add: probeRecord_def updateFirst_wraps)
    also have "\<dots> = List.map_filter (\<lambda>r. if r = a then verdict ok a else Some r) ?xs"
      unfolding map_as_map_filter using True same
      by (intro map_filter_eqI) (auto simp: verdict_def)
    finally show ?thesis .
  next
    case False
    let ?inc = "\<lambda>r::pooledConnection. r\<lparr>healthCheckFailures := healthCheckFailures r + 1\<rparr>"
    let ?ys = "map (\<lambda>r. if connection r = ?c then ?inc r else r) ?xs"
    have c1: "connections (countFailure ?c p) = ?ys"
      using d by (simp add: countFailure_def updateFirst_wraps)
    show ?thesis
    proof (cases "healthCheckFailures a + 1 > 3")
      case le: False
      have "connections (probeRecord ok a p) = ?ys"
        using False le c1 by (simp add: probeRecord_def Let_def)
      also have "\<dots> = List.map_filter (\<lambda>r. if r = a then verdict ok a else Some r) ?xs"
        unfolding map_as_map_filter using False le same
        by (intro map_filter_eqI) (auto simp: verdict_def)
      finally show ?thesis .
    next
      case gt: True
      have dy: "distinct (map connection ?ys)"
        using d by (simp only: map_connection_incr)
      have "connections (probeRecord ok a p) = removeFirst (wraps ?c) ?ys"
        using False gt c1
        by (simp add: probeRecord_def Let_def destroy_def connections_removeConnection)
      also have "\<dots> = filter (\<lambda>r. connection r \<noteq> ?c) ?ys"
        using dy by (rule removeFirst_wraps)
      also have "\<dots> = filter (\<lambda>r. connection r \<noteq> ?c) ?xs"
        by (rule filter_after_incr)
      also have "\<dots> = List.map_filter (\<lambda>r. if r = a then verdict ok a else Some r) ?xs"
        unfolding filter_as_map_filter using False gt same
        by (intro map_filter_eqI) (auto simp: verdict_def)
      finally show ?thesis .
    qed
  qed
qed

lemma map_filter_Some: "List.map_filter Some xs = xs"
  by (induction xs) (auto simp: map_filter_simps)

lemma map_filter_member:
  "x \<in> set xs \<Longrightarrow> f x = Some y \<Longrightarrow> y \<in> set (List.map_filter f xs)"
  by (induction xs) (auto simp: map_filter_simps split: option.splits)

lemma map_filter_memberD:
  "y \<in> set (List.map_filter f xs) \<Longrightarrow> \<exists>x \<in> set xs. f x = Some y"
  by (induction xs) (auto simp: map_filter_simps split: option.splits)

lemma fold_probeRecord_connections:
  assumes "distinct (map connection (connections q))"
    and "set todo \<subseteq> set (connections q)"
    and "distinct (map connection todo)"
  shows "connections (fold (\<lambda>a. probeRecord (okf a) a) todo q)
         = List.map_filter (\<lambda>r. if r \<in> set todo then verdict (okf r) r else Some r)
             (connections q)"
  using assms
proof (induction todo arbitrary: q)
  case Nil
  show ?case by (simp add: map_filter_Some)
next
  case (Cons a t)
  let ?xs = "connections q"
  let ?f = "\<lambda>r. if r = a then verdict (okf a) a else Some r"
  let ?q1 = "probeRecord (okf a) a q"
  have a: "a \<in> set ?xs" using Cons.prems(2) by simp
  have c1: "connections ?q1 = List.map_filter ?f ?xs"
    using Cons.prems(1) a by (rule probeRecord_connections)
  have pres: "\<And>x y. ?f x = Some y \<Longrightarrow> connection y = connection x"
    by (auto split: if_splits dest: verdict_connection)
  have d1: "distinct (map connection (connections ?q1))"
    unfolding c1 using Cons.prems(1) pres by (rule distinct_connection_map_filter(1))
  have nt: "\<And>r. r \<in> set t \<Longrightarrow> connection r \<noteq> connection a"
    using Cons.prems(3) by (auto simp: image_iff)
  have s1: "set t \<subseteq> set (connections ?q1)"
  proof
    fix r assume r: "r \<in> set t"
    then have "r \<in> set ?xs" "r \<noteq> a" using Cons.prems(2) nt by auto
    then have "?f r = Some r" by simp
    then show "r \<in> set (connections ?q1)"
      unfolding c1 using \<open>r \<in> set ?xs\<close> by (intro map_filter_member [where x = r])
  qed
  have d2: "distinct (map connection t)" using Cons.prems(3) by simp
  have "connections (fold (\<lambda>a. probeRecord (okf a) a) t ?q1)
        = List.map_filter (\<lambda>r. if r \<in> set t then verdict (okf r) r else Some r)
            (List.map_filter ?f ?xs)"
    using Cons.IH [OF d1 s1 d2] by (simp only: c1)
  also have "\<dots> = List.map_filter
                      (\<lambda>x. case ?f x of None \<Rightarrow> None
                           | Some y \<Rightarrow> (if y \<in> set t then verdict (okf y) y else Some y)) ?xs"
    by (rule map_filter_compose)
  also have "\<dots> = List.map_filter
                      (\<lambda>r. if r \<in> set (a # t) then verdict (okf r) r else Some r) ?xs"
  proof (rule map_filter_eqI)
    fix x assume "x \<in> set ?xs"
    show "(case ?f x of None \<Rightarrow> None
           | Some y \<Rightarrow> (if y \<in> set t then verdict (okf y) y else Some y))
          = (if x \<in> set (a # t) then verdict (okf x) x else Some x)"
    proof (cases "x = a")
      case True
      show ?thesis
      proof (cases "verdict (okf a) a")
        case None
        then show ?thesis using True by simp
      next
        case (Some y)
        then have "connection y = connection a" by (rule verdict_connection)
        then have "y \<notin> set t" using nt by auto
        then show ?thesis using True Some by simp
      qed
    next
      case False
      then show ?thesis by simp
    qed
  qed
  finally show ?case by simp
qed

lemma probeRecord_others:
  "isConnected (probeRecord ok a p) = isConnected p"
  "nextConnection (probeRecord ok a p) = nextConnection p"
  "poolSize (probeRecord ok a p) = poolSize p"
  "failedHealthChecks (metrics (probeRecord ok a p))
     = failedHealthChecks (metrics p) + (if ok then 0 else 1)"
  "poolHits (metrics (probeRecord ok a p)) = poolHits (metrics p)"
  "poolMisses (metrics (probeRecord ok a p)) = poolMisses (metrics p)"
  "set (destroyed (probeRecord ok a p))
     = set (destroyed p) \<union> (if \<not> ok \<and> healthCheckFailures a + 1 > 3 then {connection a} else {})"
  by (auto simp: probeRecord_def countFailure_def destroy_def removeConnection_def emit_def
      updateMetrics_def Let_def split: option.splits)

lemma fold_probeRecord_others:
  "isConnected (fold (\<lambda>a. probeRecord (okf a) a) todo q) = isConnected q"
  "nextConnection (fold (\<lambda>a. probeRecord (okf a) a) todo q) = nextConnection q"
  "failedHealthChecks (metrics (fold (\<lambda>a. probeRecord (okf a) a) todo q))
     = failedHealthChecks (metrics q) + length (filter (\<lambda>a. \<not> okf a) todo)"
  "set (destroyed (fold (\<lambda>a. probeRecord (okf a) a) todo q))
     = set (destroyed q)
       \<union> connection ` {a \<in> set todo. \<not> okf a \<and> healthCheckFailures a + 1 > 3}"
  by (induction todo arbitrary: q; auto simp: probeRecord_others)+

text \<open>The connections that the pool holds.\<close>

definition pooledIds :: "connectionPool \<Rightarrow> nat set" where
  "pooledIds p = set (map connection (connections p))"

lemma performHealthCheck_connections:
  assumes "wellFormed p"
  shows "connections (performHealthCheck probe p)
         = List.map_filter (checked p probe) (connections p)"
proof -
  let ?xs = "connections p"
  let ?todo = "filter (\<lambda>conn. \<not> inUse conn) ?xs"
  have d: "distinct (map connection ?xs)" using assms by (simp add: wellFormed_def)
  have "connections (fold (\<lambda>a. probeRecord (probeOk p probe a) a) ?todo p)
        = List.map_filter (\<lambda>r. if r \<in> set ?todo then verdict (probeOk p probe r) r else Some r) ?xs"
    using d by (intro fold_probeRecord_connections) (auto simp: distinct_map_filter)
  also have "\<dots> = List.map_filter (checked p probe) ?xs"
    by (rule map_filter_eqI) (simp add: checked_def)
  finally show ?thesis by (simp add: performHealthCheck_def updateMetrics_def)
qed

lemma checked_connection: "checked p probe x = Some y \<Longrightarrow> connection y = connection x"
  by (auto simp: checked_def split: if_splits dest: verdict_connection)

lemma performHealthCheck_others:
  "nextConnection (performHealthCheck probe p) = nextConnection p"
  "isConnected (performHealthCheck probe p) = isConnected p"
  "failedHealthChecks (metrics (performHealthCheck probe p))
     = failedHealthChecks (metrics p)
       + length (filter (\<lambda>r. \<not> inUse r \<and> \<not> probeOk p probe r) (connections p))"
  "set (destroyed (performHealthCheck probe p))
     = set (destroyed p)
       \<union> connection ` {a \<in> set (connections p).
                          \<not> inUse a \<and> \<not> probeOk p probe a \<and> healthCheckFailures a + 1 > 3}"
  by (auto simp: performHealthCheck_def updateMetrics_def fold_probeRecord_others conj_commute)

lemma wellFormed_performHealthCheck:
  assumes "wellFormed p"
  shows "wellFormed (performHealthCheck probe p)"
proof -
  let ?ys = "List.map_filter (checked p probe) (connections p)"
  have d: "distinct (map connection (connections p))"
    and b: "\<forall>r \<in> set (connections p). connection r < nextConnection p"
    using assms by (simp_all add: wellFormed_def list_all_iff)
  have "distinct (map connection ?ys)"
    using d checked_connection by (rule distinct_connection_map_filter(1))
  moreover have "connection ` set ?ys \<subseteq> connection ` set (connections p)"
    using d checked_connection by (rule distinct_connection_map_filter(2))
  then have "\<forall>r \<in> set ?ys. connection r < nextConnection p"
    using b by (auto simp: image_iff subset_iff)
  ultimately show ?thesis
    by (simp add: wellFormed_def list_all_iff performHealthCheck_connections [OF assms]
        performHealthCheck_others)
qed

lemma health_probe_failed:
  assumes wf: "wellFormed p" and r: "r \<in> set (connections p)" and idle: "\<not> inUse r"
    and nok: "\<not> probeOk p probe r"
  shows "healthCheckFailures r < 3 \<Longrightarrow>
           r\<lparr>healthCheckFailures := healthCheckFailures r + 1\<rparr>
             \<in> set (connections (performHealthCheck probe p))"
    and "\<not> healthCheckFailures r < 3 \<Longrightarrow> connection r \<notin> pooledIds (performHealthCheck probe p)"
proof -
  {
    assume "healthCheckFailures r < 3"
    then have "checked p probe r = Some (r\<lparr>healthCheckFailures := healthCheckFailures r + 1\<rparr>)"
      using idle nok by (simp add: checked_def verdict_def)
    then show "r\<lparr>healthCheckFailures := healthCheckFailures r + 1\<rparr>
             \<in> set (connections (performHealthCheck probe p))"
      unfolding performHealthCheck_connections [OF wf] using r by (intro map_filter_member [where x = r])
  }
  {
    assume ge: "\<not> healthCheckFailures r < 3"
    have d: "distinct (map connection (connections p))" using wf by (simp add: wellFormed_def)
    show "connection r \<notin> pooledIds (performHealthCheck probe p)"
    proof
      assume "connection r \<in> pooledIds (performHealthCheck probe p)"
      then obtain y where y: "y \<in> set (List.map_filter (checked p probe) (connections p))"
        and cy: "connection y = connection r"
        unfolding pooledIds_def performHealthCheck_connections [OF wf] by (auto simp: image_iff)
      from map_filter_memberD [OF y] obtain x where x: "x \<in> set (connections p)"
        and cx: "checked p probe x = Some y" by blast
      have "connection x = connection r" using checked_connection [OF cx] cy by simp
      then have "x = r" using d x r by (meson distinct_map inj_onD)
      then show False using cx idle nok ge by (simp add: checked_def verdict_def)
    qed
  }
qed

lemma ids_updateFirst:
  fixes xs :: "pooledConnection list"
  shows "(\<And>r. connection (f r) = connection r) \<Longrightarrow>
     map connection (updateFirst P f xs) = map connection xs"
  by (induction xs) auto

lemma ids_removeFirst:
  fixes xs :: "pooledConnection list"
  shows "set (removeFirst P xs) \<subseteq> set xs"
  by (induction xs) auto

lemma image_updateFirst:
  fixes xs :: "pooledConnection list"
  assumes "\<And>r. connection (f r) = connection r"
  shows "connection ` set (updateFirst P f xs) = connection ` set xs"
proof -
  have "set (map connection (updateFirst P f xs)) = set (map connection xs)"
    using assms by (simp only: ids_updateFirst)
  then show ?thesis by simp
qed

text \<open>A connection that the pool created earlier and holds no more.\<close>

definition stale :: "nat \<Rightarrow> connectionPool \<Rightarrow> bool" where
  "stale c p \<longleftrightarrow> c \<notin> pooledIds p \<and> c < nextConnection p"

lemma pooledIds_mono:
  "set (connections q) \<subseteq> set (connections p) \<Longrightarrow> pooledIds q \<subseteq> pooledIds p"
  by (auto simp: pooledIds_def)

lemma stale_takeIdle:
  "pooledIds (takeIdle now p) = pooledIds p" "nextConnection (takeIdle now p) = nextConnection p"
  by (simp_all add: pooledIds_def takeIdle_def updateMetrics_def image_updateFirst)

lemma ids_release:
  "pooledIds (release now c p) = pooledIds p" "nextConnection (release now c p) = nextConnection p"
  by (simp_all add: pooledIds_def release_def emit_def updateMetrics_def image_updateFirst
      split: option.splits)

lemma ids_removeConnection:
  "pooledIds (removeConnection c p) \<subseteq> pooledIds p"
  "nextConnection (removeConnection c p) = nextConnection p"
  using ids_removeFirst [of "wraps c" "connections p"]
  by (auto simp: pooledIds_def removeConnection_def emit_def updateMetrics_def
      split: option.splits)

lemma ids_countFailure:
  "pooledIds (countFailure c p) = pooledIds p"
  "nextConnection (countFailure c p) = nextConnection p"
  by (simp_all add: pooledIds_def countFailure_def image_updateFirst)

lemma ids_destroy:
  "pooledIds (destroy c p) = pooledIds p" "nextConnection (destroy c p) = nextConnection p"
  by (simp_all add: pooledIds_def destroy_def)

lemma ids_handleConnectionError:
  "pooledIds (handleConnectionError c e p) \<subseteq> pooledIds p"
  "nextConnection (handleConnectionError c e p) = nextConnection p"
proof -
  have e: "\<And>q. pooledIds (emit (ConnectionError c e) q) = pooledIds q"
    "\<And>q. nextConnection (emit (ConnectionError c e) q) = nextConnection q"
    by (simp_all add: emit_def pooledIds_def)
  show "pooledIds (handleConnectionError c e p) \<subseteq> pooledIds p"
    using ids_removeConnection(1) [of c "countFailure c p"]
    by (auto simp: handleConnectionError_def e Let_def ids_destroy ids_countFailure
        split: option.splits)
  show "nextConnection (handleConnectionError c e p) = nextConnection p"
    by (simp add: handleConnectionError_def e Let_def ids_destroy ids_countFailure
        ids_removeConnection split: option.splits)
qed

lemma ids_probeRecord:
  "pooledIds (probeRecord ok a p) \<subseteq> pooledIds p"
proof (cases ok)
  case True
  then show ?thesis
    by (simp add: probeRecord_def pooledIds_def image_updateFirst)
next
  case False
  then show ?thesis
    using ids_removeConnection(1) [of "connection a" "countFailure (connection a) p"]
    by (simp add: probeRecord_def Let_def ids_destroy ids_countFailure)
qed

lemma ids_fold_probeRecord:
  "pooledIds (fold (\<lambda>a. probeRecord (okf a) a) todo q) \<subseteq> pooledIds q"
proof (induction todo arbitrary: q)
  case Nil
  then show ?case by simp
next
  case (Cons a t)
  have "pooledIds (fold (\<lambda>a. probeRecord (okf a) a) t (probeRecord (okf a) a q))
          \<subseteq> pooledIds (probeRecord (okf a) a q)"
    by (rule Cons.IH)
  also have "\<dots> \<subseteq> pooledIds q" by (rule ids_probeRecord)
  finally show ?case by simp
qed

lemma ids_performHealthCheck:
  "pooledIds (performHealthCheck probe p) \<subseteq> pooledIds p"
  using ids_fold_probeRecord [of "probeOk p probe" _ p]
  by (simp add: performHealthCheck_def updateMetrics_def pooledIds_def)

lemma ids_createConnection:
  "createConnection now cr p = (res, p1) \<Longrightarrow>
     pooledIds p1 \<subseteq> insert (nextConnection p) (pooledIds p)
     \<and> nextConnection p1 = Suc (nextConnection p)
     \<and> (\<forall>c. res = Inr c \<longrightarrow> c = nextConnection p)"
  by (auto simp: createConnection_def Let_def emit_def updateMetrics_def pooledIds_def
      split: option.splits)

text \<open>A step adds only connections that did not exist before it.\<close>

definition grows :: "connectionPool \<Rightarrow> connectionPool \<Rightarrow> bool" where
  "grows p p1 \<longleftrightarrow>
     pooledIds p1 \<subseteq> pooledIds p \<union> {n. nextConnection p \<le> n}
     \<and> nextConnection p \<le> nextConnection p1"

lemma grows_refl: "grows p p"
  by (simp add: grows_def)

lemma grows_trans: "grows p q \<Longrightarrow> grows q r \<Longrightarrow> grows p r"
  unfolding grows_def by (auto simp: subset_iff)

lemma grows_createAndRelease:
  "grows p (snd (createAndRelease now cr k p))"
proof (induction k arbitrary: p)
  case 0
  then show ?case by (simp add: grows_refl)
next
  case (Suc k)
  obtain res p1 where c: "createConnection now (cr (nextConnection p)) p = (res, p1)"
    by (cases "createConnection now (cr (nextConnection p)) p")
  have g1: "grows p p1"
    using ids_createConnection [OF c] by (auto simp: grows_def)
  show ?case
  proof (cases res)
    case (Inl e)
    then show ?thesis
      using c g1 Suc.IH [of p1] by (auto intro: grows_trans)
  next
    case (Inr x)
    have "grows p1 (release now x p1)" by (simp add: grows_def ids_release)
    then have "grows p (release now x p1)" using g1 by (rule grows_trans [rotated])
    then show ?thesis
      using c Inr Suc.IH [of "release now x p1"] by (auto intro: grows_trans)
  qed
qed

lemma grows_warmUp: "grows p (snd (warmUp now n cr p))"
proof -
  have e: "\<And>ev q. grows p q \<Longrightarrow> grows p (emit ev q)"
    by (simp add: grows_def emit_def pooledIds_def)
  show ?thesis
    using grows_createAndRelease [of p now cr]
    by (auto simp: warmUp_def grows_refl e split: prod.splits option.splits)
       (metis snd_conv e)+
qed

lemma grows_step:
  "poolStep x p = (res, p1) \<Longrightarrow>
     grows p p1 \<and> (\<forall>c. res = Some c \<longrightarrow> c \<in> pooledIds p \<or> nextConnection p \<le> c)"
proof (cases x)
  case (Acquire now cr)
  assume s: "poolStep x p = (res, p1)"
  show ?thesis
  proof (cases "find (available p) (connections p)")
    case (Some r)
    then have "r \<in> set (connections p)" by (auto simp: find_Some_iff)
    then have "connection r \<in> pooledIds p" by (auto simp: pooledIds_def)
    then show ?thesis
      using s Acquire Some by (auto simp: acquire_def grows_def stale_takeIdle)
  next
    case None
    show ?thesis
    proof (cases "length (connections p) < poolSize p")
      case True
      obtain r q where c: "createConnection now cr p = (r, q)"
        by (cases "createConnection now cr p")
      have m: "\<And>q f. pooledIds (q\<lparr>metrics := f\<rparr>) = pooledIds q" by (simp add: pooledIds_def)
      show ?thesis
        using s Acquire None True c ids_createConnection [OF c]
        by (cases r) (auto simp: acquire_def grows_def m)
    next
      case False
      then show ?thesis using s Acquire None by (auto simp: acquire_def grows_refl)
    qed
  qed
next
  case (Poll now)
  assume s: "poolStep x p = (res, p1)"
  show ?thesis
  proof (cases "find (available p) (connections p)")
    case (Some r)
    then have "r \<in> set (connections p)" by (auto simp: find_Some_iff)
    then have "connection r \<in> pooledIds p" by (auto simp: pooledIds_def)
    then show ?thesis
      using s Poll Some by (auto simp: checkForConnection_def grows_def stale_takeIdle)
  next
    case None
    then show ?thesis using s Poll by (auto simp: checkForConnection_def grows_refl)
  qed
next
  case (Release now c)
  assume "poolStep x p = (res, p1)"
  then show ?thesis using Release by (auto simp: grows_def ids_release)
next
  case (HealthCheck probe)
  assume "poolStep x p = (res, p1)"
  then show ?thesis
    using HealthCheck ids_performHealthCheck [of probe p]
    by (auto simp: grows_def performHealthCheck_others)
next
  case (WarmUp now n cr)
  assume "poolStep x p = (res, p1)"
  then show ?thesis using WarmUp grows_warmUp [of p now n cr] by auto
next
  case (SocketError c e)
  let ?p = "p\<lparr>isConnected := (isConnected p)(c := False)\<rparr>"
  assume "poolStep x p = (res, p1)"
  then show ?thesis
    using SocketError ids_handleConnectionError [of c e ?p]
    by (auto simp: grows_def pooledIds_def)
next
  case (SocketClose c)
  let ?p = "p\<lparr>isConnected := (isConnected p)(c := False)\<rparr>"
  assume "poolStep x p = (res, p1)"
  then show ?thesis
    using SocketClose ids_removeConnection [of c ?p]
    by (auto simp: grows_def pooledIds_def)
qed

lemma stale_never_handed_out:
  "stale c p \<Longrightarrow> c \<notin> set (handedOut xs p)"
proof (induction xs arbitrary: p)
  case Nil
  then show ?case by simp
next
  case (Cons x xs)
  obtain res p1 where s: "poolStep x p = (res, p1)" by (cases "poolStep x p")
  from grows_step [OF s] have g: "grows p p1"
    and r: "\<forall>d. res = Some d \<longrightarrow> d \<in> pooledIds p \<or> nextConnection p \<le> d" by blast+
  have st: "stale c p1"
    using Cons.prems g unfolding stale_def grows_def by (auto simp: subset_iff)
  have ne: "res \<noteq> Some c"
    using Cons.prems r unfolding stale_def by auto
  show ?case
    using s ne Cons.IH [OF st] by (cases res) auto
qed

lemma three_then_four:
  assumes wf: "wellFormed p" and r: "r \<in> set (connections p)" and idle: "\<not> inUse r"
    and zero: "healthCheckFailures r = 0"
    and b1: "\<not> probe1 (connection r)" and b2: "\<not> probe2 (connection r)"
    and b3: "\<not> probe3 (connection r)" and b4: "\<not> probe4 (connection r)"
  shows "connection r \<in> pooledIds
           (performHealthCheck probe3 (performHealthCheck probe2 (performHealthCheck probe1 p)))"
    and "connection r \<notin> pooledIds
           (performHealthCheck probe4
              (performHealthCheck probe3 (performHealthCheck probe2 (performHealthCheck probe1 p))))"
proof -
  let ?p1 = "performHealthCheck probe1 p"
  let ?p2 = "performHealthCheck probe2 ?p1"
  let ?p3 = "performHealthCheck probe3 ?p2"
  let ?r1 = "r\<lparr>healthCheckFailures := Suc 0\<rparr>"
  let ?r2 = "r\<lparr>healthCheckFailures := Suc (Suc 0)\<rparr>"
  let ?r3 = "r\<lparr>healthCheckFailures := Suc (Suc (Suc 0))\<rparr>"
  have w1: "wellFormed ?p1" using wf by (rule wellFormed_performHealthCheck)
  have w2: "wellFormed ?p2" using w1 by (rule wellFormed_performHealthCheck)
  have w3: "wellFormed ?p3" using w2 by (rule wellFormed_performHealthCheck)
  have n: "\<And>q probe x. \<not> probe (connection x) \<Longrightarrow> \<not> probeOk q probe x"
    by (simp add: probeOk_def)
  have "\<not> probeOk p probe1 r" using b1 by (rule n)
  then have m1: "?r1 \<in> set (connections ?p1)"
    using health_probe_failed(1) [OF wf r idle] zero by simp
  have m2: "?r2 \<in> set (connections ?p2)"
    using health_probe_failed(1) [OF w1 m1, of probe2] idle b2 n by simp
  have m3: "?r3 \<in> set (connections ?p3)"
    using health_probe_failed(1) [OF w2 m2, of probe3] idle b3 n by simp
  from m3 have "connection ?r3 \<in> pooledIds ?p3"
    unfolding pooledIds_def by (metis image_eqI set_map)
  then show "connection r \<in> pooledIds ?p3" by simp
  show "connection r \<notin> pooledIds (performHealthCheck probe4 ?p3)"
    using health_probe_failed(2) [OF w3 m3, of probe4] idle b4 n by simp
qed

text \<open>
  C6. In a well-formed pool a health check leaves every in-use record as it is (such a
  record is not probed); for an idle record a successful probe sets its failure counter
  to zero and a failed probe adds one to it, and the pool-wide counter grows by the
  number of failed probes. An idle record whose counter exceeds 3 after a failed probe is
  removed from the pool and its connection is destroyed, and no later step of the pool,
  whatever the steps are, hands that connection to a caller. An idle record with counter
  0 whose probe fails in four health checks in a row is still pooled after the third and
  gone after the fourth.
\<close>

theorem health_check_eviction:
  assumes "wellFormed p"
  shows "connections (performHealthCheck probe p)
           = List.map_filter (checked p probe) (connections p)
       \<and> failedHealthChecks (metrics (performHealthCheck probe p))
           = failedHealthChecks (metrics p)
             + length (filter (\<lambda>r. \<not> inUse r \<and> \<not> probeOk p probe r) (connections p))
       \<and> (\<forall>r \<in> set (connections p).
             \<not> inUse r \<and> \<not> probeOk p probe r \<and> 3 < healthCheckFailures r + 1 \<longrightarrow>
               connection r \<notin> pooledIds (performHealthCheck probe p)
             \<and> connection r \<in> set (destroyed (performHealthCheck probe p))
             \<and> (\<forall>steps. connection r \<notin> set (handedOut steps (performHealthCheck probe p))))
       \<and> (\<forall>r \<in> set (connections p).
             \<not> inUse r \<and> healthCheckFailures r = 0
             \<and> \<not> probe1 (connection r) \<and> \<not> probe2 (connection r)
             \<and> \<not> probe3 (connection r) \<and> \<not> probe4 (connection r) \<longrightarrow>
               connection r \<in> pooledIds
                 (performHealthCheck probe3
                    (performHealthCheck probe2 (performHealthCheck probe1 p)))
             \<and> connection r \<notin> pooledIds
                 (performHealthCheck probe4
                    (performHealthCheck probe3
                       (performHealthCheck probe2 (performHealthCheck probe1 p)))))"
proof (intro conjI ballI impI)
  show "connections (performHealthCheck probe p)
           = List.map_filter (checked p probe) (connections p)"
    using assms by (rule performHealthCheck_connections)
  show "failedHealthChecks (metrics (performHealthCheck probe p))
           = failedHealthChecks (metrics p)
             + length (filter (\<lambda>r. \<not> inUse r \<and> \<not> probeOk p probe r) (connections p))"
    by (rule performHealthCheck_others)
next
  fix r
  assume r: "r \<in> set (connections p)"
    and h: "\<not> inUse r \<and> \<not> probeOk p probe r \<and> 3 < healthCheckFailures r + 1"
  let ?q = "performHealthCheck probe p"
  show gone: "connection r \<notin> pooledIds ?q"
    using health_probe_failed(2) [OF assms r, of probe] h by simp
  show "connection r \<in> set (destroyed ?q)"
    using r h by (auto simp: performHealthCheck_others)
  have "connection r < nextConnection p"
    using assms r by (simp add: wellFormed_def list_all_iff)
  then have "stale (connection r) ?q"
    using gone by (simp add: stale_def performHealthCheck_others)
  then show "\<forall>steps. connection r \<notin> set (handedOut steps ?q)"
    by (simp add: stale_never_handed_out)
next
  fix r
  assume r: "r \<in> set (connections p)"
    and h: "\<not> inUse r \<and> healthCheckFailures r = 0
             \<and> \<not> probe1 (connection r) \<and> \<not> probe2 (connection r)
             \<and> \<not> probe3 (connection r) \<and> \<not> probe4 (connection r)"
  show "connection r \<in> pooledIds
          (performHealthCheck probe3 (performHealthCheck probe2 (performHealthCheck probe1 p)))"
    using three_then_four(1) [OF assms r] h by blast
  show "connection r \<notin> pooledIds
          (performHealthCheck probe4
             (performHealthCheck probe3 (performHealthCheck probe2 (performHealthCheck probe1 p))))"
    using three_then_four(2) [OF assms r] h by blast
qed

text \<open>The pool \<open>oneIdle\<close> after three health checks in which every probe failed.\<close>

definition threeStrikes :: connectionPool where
  "threeStrikes =
     performHealthCheck (\<lambda>c. False)
       (performHealthCheck (\<lambda>c. False) (performHealthCheck (\<lambda>c. False) oneIdle))"

theorem health_check_eviction_witness:
  "connections (performHealthCheck (\<lambda>c. False) oneIdle)
     = [\<lparr>connection = 0, inUse = True, createdAt = 3, lastUsed = 3, healthCheckFailures = 0\<rparr>,
        \<lparr>connection = 1, inUse = False, createdAt = 5, lastUsed = 9, healthCheckFailures = 1\<rparr>]
   \<and> failedHealthChecks (metrics (performHealthCheck (\<lambda>c. False) oneIdle)) = 1
   \<and> connections (performHealthCheck (\<lambda>c. True) oneIdle) = connections oneIdle
   \<and> 1 \<in> pooledIds threeStrikes
   \<and> 1 \<notin> pooledIds (performHealthCheck (\<lambda>c. False) threeStrikes)
   \<and> 1 \<in> set (destroyed (performHealthCheck (\<lambda>c. False) threeStrikes))
   \<and> 1 \<notin> set (handedOut [Acquire 50 None, Acquire 51 None, Poll 60]
                  (performHealthCheck (\<lambda>c. False) threeStrikes))"
proof -
  let ?r0 = "\<lparr>connection = 0, inUse = True, createdAt = 3, lastUsed = 3, healthCheckFailures = 0\<rparr>"
  let ?r1 = "\<lparr>connection = 1, inUse = False, createdAt = 5, lastUsed = 9, healthCheckFailures = 0\<rparr>"
  let ?bad = "\<lambda>c::nat. False"
  have w: "wellFormed oneIdle"
    by (simp add: wellFormed_def oneIdle_eval)
  have c: "connections oneIdle = [?r0, ?r1]"
    and m: "failedHealthChecks (metrics oneIdle) = 0"
    and i: "isConnected oneIdle = (\<lambda>_. False)(0 := True, 1 := True)"
    by (simp_all add: oneIdle_eval)
  note t = health_check_eviction [OF w]
  have a1: "connections (performHealthCheck ?bad oneIdle) = [?r0, ?r1\<lparr>healthCheckFailures := 1\<rparr>]"
    using t [of ?bad, THEN conjunct1]
    by (simp add: c checked_def verdict_def probeOk_def map_filter_simps)
  have a2: "failedHealthChecks (metrics (performHealthCheck ?bad oneIdle)) = 1"
    using t [of ?bad, THEN conjunct2, THEN conjunct1]
    by (simp add: c m probeOk_def)
  have a3: "connections (performHealthCheck (\<lambda>c. True) oneIdle) = connections oneIdle"
    using t [of "\<lambda>c. True", THEN conjunct1]
    by (simp add: c i checked_def verdict_def probeOk_def map_filter_simps)
  have r: "?r1 \<in> set (connections oneIdle)" by (simp add: c)
  have h: "\<not> inUse ?r1 \<and> healthCheckFailures ?r1 = 0
           \<and> \<not> ?bad (connection ?r1) \<and> \<not> ?bad (connection ?r1)
           \<and> \<not> ?bad (connection ?r1) \<and> \<not> ?bad (connection ?r1)"
    by simp
  have a4: "1 \<in> pooledIds threeStrikes"
    using t [of _ ?bad ?bad ?bad ?bad, THEN conjunct2, THEN conjunct2, THEN conjunct2,
             rule_format, OF r h]
    by (simp add: threeStrikes_def)
  have ts: "threeStrikes =
     oneIdle\<lparr>connections := [?r0, ?r1\<lparr>healthCheckFailures := 3\<rparr>],
             metrics := (metrics oneIdle)\<lparr>failedHealthChecks := 3\<rparr>\<rparr>"
    by (simp add: threeStrikes_def oneIdle_eval performHealthCheck_def probeRecord_def
        probeOk_def countFailure_def updateMetrics_def wraps_def Let_def)
  have w3: "wellFormed threeStrikes"
    by (simp add: wellFormed_def ts oneIdle_eval)
  let ?r3 = "?r1\<lparr>healthCheckFailures := 3\<rparr>"
  have r3: "?r3 \<in> set (connections threeStrikes)" by (simp add: ts)
  have h3: "\<not> inUse ?r3 \<and> \<not> probeOk threeStrikes ?bad ?r3 \<and> 3 < healthCheckFailures ?r3 + 1"
    by (simp add: probeOk_def)
  have e: "1 \<notin> pooledIds (performHealthCheck ?bad threeStrikes)
       \<and> 1 \<in> set (destroyed (performHealthCheck ?bad threeStrikes))
       \<and> (\<forall>steps. 1 \<notin> set (handedOut steps (performHealthCheck ?bad threeStrikes)))"
    using health_check_eviction [OF w3, of ?bad, THEN conjunct2, THEN conjunct2, THEN conjunct1,
      rule_format, OF r3 h3]
    by simp
  have a5: "1 \<notin> pooledIds (performHealthCheck ?bad threeStrikes)"
    and a6: "1 \<in> set (destroyed (performHealthCheck ?bad threeStrikes))"
    and a7: "1 \<notin> set (handedOut [Acquire 50 None, Acquire 51 None, Poll 60]
                  (performHealthCheck ?bad threeStrikes))"
    using e by blast+
  show ?thesis
    using a1 a2 a3 a4 a5 a6 a7 by (simp del: handedOut.simps)
qed

subsection \<open>Every step keeps the pool well formed\<close>

lemma wellFormed_ids:
  "wellFormed p \<longleftrightarrow>
     distinct (map connection (connections p)) \<and> (\<forall>c \<in> pooledIds p. c < nextConnection p)"
  by (auto simp: wellFormed_def pooledIds_def list_all_iff)

lemma wellFormed_same_ids:
  "map connection (connections q) = map connection (connections p) \<Longrightarrow>
   nextConnection q = nextConnection p \<Longrightarrow> wellFormed p \<Longrightarrow> wellFormed q"
  by (simp add: wellFormed_ids pooledIds_def)

lemma distinct_removeFirst:
  fixes xs :: "pooledConnection list"
  shows "distinct (map connection xs) \<Longrightarrow> distinct (map connection (removeFirst P xs))"
  by (induction xs) (auto simp: image_iff dest: subsetD [OF ids_removeFirst])

lemma wellFormed_newPool: "wellFormed (newPool capacity ms)"
  by (simp add: wellFormed_def newPool_def)

lemma wellFormed_takeIdle: "wellFormed p \<Longrightarrow> wellFormed (takeIdle now p)"
  by (rule wellFormed_same_ids [of _ p])
     (simp_all add: takeIdle_def updateMetrics_def ids_updateFirst)

lemma wellFormed_release: "wellFormed p \<Longrightarrow> wellFormed (release now c p)"
  by (rule wellFormed_same_ids [of _ p])
     (simp_all add: release_def emit_def updateMetrics_def ids_updateFirst split: option.splits)

lemma wellFormed_countFailure: "wellFormed p \<Longrightarrow> wellFormed (countFailure c p)"
  by (rule wellFormed_same_ids [of _ p]) (simp_all add: countFailure_def ids_updateFirst)

lemma wellFormed_removeConnection: "wellFormed p \<Longrightarrow> wellFormed (removeConnection c p)"
  unfolding wellFormed_ids
  using ids_removeConnection [of c p] distinct_removeFirst [of "connections p" "wraps c"]
  by (auto simp: connections_removeConnection)

lemma wellFormed_createConnection:
  "wellFormed p \<Longrightarrow> wellFormed (snd (createConnection now connectResult p))"
  by (cases connectResult)
     (auto simp: wellFormed_def createConnection_def Let_def emit_def updateMetrics_def
        list_all_iff image_iff less_Suc_eq)

lemma wellFormed_createAndRelease:
  "wellFormed p \<Longrightarrow> wellFormed (snd (createAndRelease now connectResult k p))"
proof (induction k arbitrary: p)
  case 0
  then show ?case by simp
next
  case (Suc k)
  obtain r q where c: "createConnection now (connectResult (nextConnection p)) p = (r, q)"
    by (cases "createConnection now (connectResult (nextConnection p)) p")
  have wq: "wellFormed q"
    using wellFormed_createConnection [OF Suc.prems, of now "connectResult (nextConnection p)"] c
    by simp
  show ?case
  proof (cases r)
    case (Inl e)
    then show ?thesis using c Suc.IH [OF wq] by simp
  next
    case (Inr x)
    then show ?thesis using c Suc.IH [OF wellFormed_release [OF wq, of now x]] by simp
  qed
qed

lemma wellFormed_poolStep:
  assumes "wellFormed p"
  shows "wellFormed (snd (poolStep x p))"
proof (cases x)
  case (Acquire now cr)
  have m: "\<And>q f. wellFormed q \<Longrightarrow> wellFormed (q\<lparr>metrics := f\<rparr>)"
    by (simp add: wellFormed_def)
  show ?thesis
    using assms wellFormed_createConnection [OF assms, of now cr]
    by (auto simp: Acquire acquire_def wellFormed_takeIdle m split: option.splits sum.splits prod.splits)
next
  case (Poll now)
  then show ?thesis
    using assms by (auto simp: checkForConnection_def wellFormed_takeIdle split: option.splits)
next
  case (Release now c)
  then show ?thesis using assms by (simp add: wellFormed_release)
next
  case (HealthCheck probe)
  then show ?thesis using assms by (simp add: wellFormed_performHealthCheck)
next
  case (WarmUp now n cr)
  have e: "\<And>ev q. wellFormed q \<Longrightarrow> wellFormed (emit ev q)"
    by (simp add: wellFormed_def emit_def)
  obtain r q where c: "createAndRelease now cr (nat (connectionsToCreate n p)) p = (r, q)"
    by (cases "createAndRelease now cr (nat (connectionsToCreate n p)) p")
  then have "wellFormed q"
    using wellFormed_createAndRelease [OF assms, of now cr "nat (connectionsToCreate n p)"] by simp
  then show ?thesis
    using assms c by (cases r) (simp_all add: WarmUp warmUp_def e)
next
  case (SocketError c e)
  let ?p = "p\<lparr>isConnected := (isConnected p)(c := False)\<rparr>"
  have w: "wellFormed ?p" using assms by (simp add: wellFormed_def)
  have ev: "\<And>ev q. wellFormed q \<Longrightarrow> wellFormed (emit ev q)"
    by (simp add: wellFormed_def emit_def)
  have d: "\<And>q. wellFormed q \<Longrightarrow> wellFormed (destroy c q)"
    by (simp add: wellFormed_def destroy_def)
  show ?thesis
    using w by (auto simp: SocketError handleConnectionError_def Let_def
        intro!: ev d wellFormed_removeConnection wellFormed_countFailure split: option.splits)
next
  case (SocketClose c)
  let ?p = "p\<lparr>isConnected := (isConnected p)(c := False)\<rparr>"
  have w: "wellFormed ?p" using assms by (simp add: wellFormed_def)
  show ?thesis
    using wellFormed_removeConnection [OF w, of c] by (simp add: SocketClose)
qed

subsection \<open>Warm-up\<close>

text \<open>The record of a connection that was created and released at the date \<open>now\<close>.\<close>

definition newIdle :: "nat \<Rightarrow> nat \<Rightarrow> pooledConnection" where
  "newIdle now c =
     \<lparr>connection = c, inUse = False, createdAt = now, lastUsed = now, healthCheckFailures = 0\<rparr>"

text \<open>\<open>k\<close> calls of \<open>acquire\<close> in a row, each with a connect that would succeed.\<close>

fun acquireMany :: "nat \<Rightarrow> nat \<Rightarrow> connectionPool \<Rightarrow> connectionPool" where
  "acquireMany now 0 p = p"
| "acquireMany now (Suc k) p = acquireMany now k (snd (acquire now None p))"

lemma updateFirst_append_new:
  "\<forall>x \<in> set xs. \<not> P x \<Longrightarrow> P y \<Longrightarrow> updateFirst P f (xs @ [y]) = xs @ [f y]"
  by (induction xs) auto

lemma find_append_new:
  "\<forall>x \<in> set xs. \<not> P x \<Longrightarrow> P y \<Longrightarrow> find P (xs @ [y]) = Some y"
  by (induction xs) auto

lemma release_others:
  "nextConnection (release now c q) = nextConnection q"
  "isConnected (release now c q) = isConnected q"
  "poolSize (release now c q) = poolSize q"
  "totalCreated (metrics (release now c q)) = totalCreated (metrics q)"
  "poolHits (metrics (release now c q)) = poolHits (metrics q)"
  "poolMisses (metrics (release now c q)) = poolMisses (metrics q)"
  by (simp_all add: release_def emit_def updateMetrics_def split: option.splits)

lemma createConnection_ok:
  "fst (createConnection now None p) = Inr (nextConnection p)"
  "connections (snd (createConnection now None p))
     = connections p @
       [\<lparr>connection = nextConnection p, inUse = True, createdAt = now, lastUsed = now,
         healthCheckFailures = 0\<rparr>]"
  "nextConnection (snd (createConnection now None p)) = Suc (nextConnection p)"
  "isConnected (snd (createConnection now None p)) = (isConnected p)(nextConnection p := True)"
  "poolSize (snd (createConnection now None p)) = poolSize p"
  "totalCreated (metrics (snd (createConnection now None p))) = totalCreated (metrics p) + 1"
  "poolHits (metrics (snd (createConnection now None p))) = poolHits (metrics p)"
  "poolMisses (metrics (snd (createConnection now None p))) = poolMisses (metrics p)"
  by (simp_all add: createConnection_def Let_def emit_def updateMetrics_def)

lemma create_then_release:
  assumes wf: "wellFormed p"
  shows "connections (release now (nextConnection p) (snd (createConnection now None p)))
           = connections p @ [newIdle now (nextConnection p)]"
    and "wellFormed (release now (nextConnection p) (snd (createConnection now None p)))"
proof -
  let ?c = "nextConnection p"
  let ?new = "\<lparr>connection = ?c, inUse = True, createdAt = now, lastUsed = now,
                healthCheckFailures = 0\<rparr>"
  let ?p1 = "snd (createConnection now None p)"
  have d: "distinct (map connection (connections p))"
    and b: "\<forall>r \<in> set (connections p). connection r < ?c"
    using wf by (simp_all add: wellFormed_def list_all_iff)
  have nw: "\<forall>r \<in> set (connections p). \<not> wraps ?c r"
    using b by (auto simp: wraps_def)
  have c1: "connections ?p1 = connections p @ [?new]"
    by (rule createConnection_ok)
  have f: "find (wraps ?c) (connections ?p1) = Some ?new"
    unfolding c1 using nw by (intro find_append_new) (simp_all add: wraps_def)
  have u: "updateFirst (wraps ?c) (\<lambda>conn. conn\<lparr>inUse := False, lastUsed := now\<rparr>) (connections ?p1)
           = connections p @ [newIdle now ?c]"
    unfolding c1 using nw
    by (subst updateFirst_append_new) (simp_all add: wraps_def newIdle_def)
  show r: "connections (release now ?c ?p1) = connections p @ [newIdle now ?c]"
    unfolding release_def f by (simp add: u emit_def updateMetrics_def)
  have n: "nextConnection (release now ?c ?p1) = Suc ?c"
    by (simp add: release_others createConnection_ok)
  show "wellFormed (release now ?c ?p1)"
    unfolding wellFormed_def r n list_all_iff using d b
    by (auto simp: newIdle_def image_iff less_Suc_eq)
qed

lemma createAndRelease_ok:
  assumes "wellFormed p" and "\<forall>c. connectResult c = None"
  shows "fst (createAndRelease now connectResult k p) = None
       \<and> connections (snd (createAndRelease now connectResult k p))
           = connections p @ map (newIdle now) [nextConnection p ..< nextConnection p + k]
       \<and> isConnected (snd (createAndRelease now connectResult k p))
           = (\<lambda>c. isConnected p c \<or> (nextConnection p \<le> c \<and> c < nextConnection p + k))
       \<and> poolSize (snd (createAndRelease now connectResult k p)) = poolSize p
       \<and> totalCreated (metrics (snd (createAndRelease now connectResult k p)))
           = totalCreated (metrics p) + k
       \<and> poolHits (metrics (snd (createAndRelease now connectResult k p))) = poolHits (metrics p)
       \<and> poolMisses (metrics (snd (createAndRelease now connectResult k p)))
           = poolMisses (metrics p)"
  using assms(1)
proof (induction k arbitrary: p)
  case 0
  then show ?case by (auto simp: fun_eq_iff)
next
  case (Suc k)
  let ?c = "nextConnection p"
  let ?p1 = "snd (createConnection now None p)"
  let ?q = "release now ?c ?p1"
  have cr: "createConnection now (connectResult ?c) p = (Inr ?c, ?p1)"
    using assms(2) createConnection_ok(1) [of now p] by (simp add: prod_eq_iff)
  have step: "createAndRelease now connectResult (Suc k) p = createAndRelease now connectResult k ?q"
    by (simp add: cr)
  have q: "connections ?q = connections p @ [newIdle now ?c]" and wq: "wellFormed ?q"
    using create_then_release [OF Suc.prems] by simp_all
  have nq: "nextConnection ?q = Suc ?c"
    by (simp add: release_others createConnection_ok)
  have u: "[?c ..< ?c + Suc k] = ?c # [Suc ?c ..< Suc ?c + k]"
    by (simp add: upt_conv_Cons del: upt_Suc)
  have i: "(\<lambda>c. ((isConnected p)(?c := True)) c \<or> (Suc ?c \<le> c \<and> c < Suc ?c + k))
           = (\<lambda>c. isConnected p c \<or> (?c \<le> c \<and> c < ?c + Suc k))"
    by (auto simp: fun_eq_iff)
  show ?case
    unfolding step u using Suc.IH [OF wq] i
    by (simp add: q nq release_others createConnection_ok del: upt_Suc)
qed

lemma count_after_updateFirst:
  "\<exists>x \<in> set xs. P x \<Longrightarrow> (\<And>x. \<not> P (f x)) \<Longrightarrow>
   Suc (length (filter P (updateFirst P f xs))) = length (filter P xs)"
  by (induction xs) auto

lemma available_takeIdle: "available (takeIdle now p) = available p"
  by (simp add: fun_eq_iff available_def takeIdle_def updateMetrics_def)

lemma acquireMany_hits:
  "m \<le> length (filter (available p) (connections p)) \<Longrightarrow>
     poolHits (metrics (acquireMany now m p)) = poolHits (metrics p) + m
     \<and> poolMisses (metrics (acquireMany now m p)) = poolMisses (metrics p)"
proof (induction m arbitrary: p)
  case 0
  then show ?case by simp
next
  case (Suc m)
  then have "filter (available p) (connections p) \<noteq> []" by auto
  then have ex: "\<exists>x \<in> set (connections p). available p x"
    by (simp add: filter_empty_conv)
  then obtain r where f: "find (available p) (connections p) = Some r"
    by (cases "find (available p) (connections p)") (auto simp: find_None_iff)
  have a: "snd (acquire now None p) = takeIdle now p"
    using f by (simp add: acquire_def)
  let ?f = "\<lambda>conn::pooledConnection. conn\<lparr>inUse := True, lastUsed := now\<rparr>"
  have "Suc (length (filter (available p) (updateFirst (available p) ?f (connections p))))
        = length (filter (available p) (connections p))"
    using ex by (intro count_after_updateFirst) (simp_all add: available_def)
  then have "m \<le> length (filter (available (takeIdle now p)) (connections (takeIdle now p)))"
    using Suc.prems by (simp add: available_takeIdle takeIdle_fields)
  from Suc.IH [OF this] show ?case
    by (simp add: a takeIdle_fields)
qed

lemma warmUp_noop:
  "connectionsToCreate n p \<le> 0 \<Longrightarrow> warmUp now n connectResult p = (None, p)"
  by (simp add: warmUp_def)

lemma warmUp_ok:
  assumes "wellFormed p" and "\<forall>c. connectResult c = None"
    and pos: "\<not> connectionsToCreate n p \<le> 0"
  shows "fst (warmUp now n connectResult p) = None"
    and "connections (snd (warmUp now n connectResult p))
           = connections p @
             map (newIdle now)
               [nextConnection p ..< nextConnection p + nat (connectionsToCreate n p)]"
    and "isConnected (snd (warmUp now n connectResult p))
           = (\<lambda>c. isConnected p c
                 \<or> (nextConnection p \<le> c \<and> c < nextConnection p + nat (connectionsToCreate n p)))"
    and "totalCreated (metrics (snd (warmUp now n connectResult p)))
           = totalCreated (metrics p) + nat (connectionsToCreate n p)"
    and "poolHits (metrics (snd (warmUp now n connectResult p))) = poolHits (metrics p)"
    and "poolMisses (metrics (snd (warmUp now n connectResult p))) = poolMisses (metrics p)"
proof -
  let ?k = "nat (connectionsToCreate n p)"
  obtain r q where cr: "createAndRelease now connectResult ?k p = (r, q)"
    by (cases "createAndRelease now connectResult ?k p")
  have ok: "r = None
       \<and> connections q = connections p @ map (newIdle now) [nextConnection p ..< nextConnection p + ?k]
       \<and> isConnected q
           = (\<lambda>c. isConnected p c \<or> (nextConnection p \<le> c \<and> c < nextConnection p + ?k))
       \<and> poolSize q = poolSize p
       \<and> totalCreated (metrics q) = totalCreated (metrics p) + ?k
       \<and> poolHits (metrics q) = poolHits (metrics p)
       \<and> poolMisses (metrics q) = poolMisses (metrics p)"
    using createAndRelease_ok [OF assms(1,2), of now ?k] unfolding cr fst_conv snd_conv .
  have w: "warmUp now n connectResult p = (None, emit (PoolWarmedUp (length (connections q))) q)"
    using pos ok by (simp add: warmUp_def cr)
  have e: "\<And>ev. connections (emit ev q) = connections q"
    "\<And>ev. isConnected (emit ev q) = isConnected q"
    "\<And>ev. metrics (emit ev q) = metrics q"
    by (simp_all add: emit_def)
  show "fst (warmUp now n connectResult p) = None"
    by (simp only: w fst_conv)
  show "connections (snd (warmUp now n connectResult p))
           = connections p @ map (newIdle now) [nextConnection p ..< nextConnection p + ?k]"
    unfolding w snd_conv e using ok by blast
  show "isConnected (snd (warmUp now n connectResult p))
           = (\<lambda>c. isConnected p c \<or> (nextConnection p \<le> c \<and> c < nextConnection p + ?k))"
    unfolding w snd_conv e using ok by blast
  show "totalCreated (metrics (snd (warmUp now n connectResult p))) = totalCreated (metrics p) + ?k"
    unfolding w snd_conv e using ok by blast
  show "poolHits (metrics (snd (warmUp now n connectResult p))) = poolHits (metrics p)"
    unfolding w snd_conv e using ok by blast
  show "poolMisses (metrics (snd (warmUp now n connectResult p))) = poolMisses (metrics p)"
    unfolding w snd_conv e using ok by blast
qed

text \<open>
  C7, as the code has it. In a well-formed pool with E records, when every connect
  succeeds, \<open>warmUp n\<close> throws nothing and creates \<open>min n poolSize - E\<close> connections,
  none when that number is not positive (the pool is then returned as it was). The new
  records follow the old ones, which are unchanged, and each new record is idle; a pool
  within its capacity stays within it. As many calls of \<open>acquire\<close> as connections were
  created are then pool hits: the hit counter grows by that number and the miss counter
  keeps its value.
\<close>

theorem warmUp_creates:
  assumes "wellFormed p" and "\<forall>c. connectResult c = None"
  shows "fst (warmUp now n connectResult p) = None
       \<and> connections (snd (warmUp now n connectResult p))
           = connections p @
             map (newIdle now)
               [nextConnection p ..< nextConnection p + nat (connectionsToCreate n p)]
       \<and> totalCreated (metrics (snd (warmUp now n connectResult p)))
           = totalCreated (metrics p) + nat (connectionsToCreate n p)
       \<and> (connectionsToCreate n p \<le> 0 \<longrightarrow> snd (warmUp now n connectResult p) = p)
       \<and> (length (connections p) \<le> poolSize p \<longrightarrow>
            length (connections (snd (warmUp now n connectResult p))) \<le> poolSize p)
       \<and> poolHits (metrics (acquireMany later (nat (connectionsToCreate n p))
                               (snd (warmUp now n connectResult p))))
           = poolHits (metrics p) + nat (connectionsToCreate n p)
       \<and> poolMisses (metrics (acquireMany later (nat (connectionsToCreate n p))
                                 (snd (warmUp now n connectResult p))))
           = poolMisses (metrics p)"
proof (cases "connectionsToCreate n p \<le> 0")
  case True
  then have k: "nat (connectionsToCreate n p) = 0" by simp
  show ?thesis
    unfolding warmUp_noop [OF True] k using True by simp
next
  case False
  let ?k = "nat (connectionsToCreate n p)"
  let ?w = "snd (warmUp now n connectResult p)"
  note ok = warmUp_ok [OF assms False, of now]
  have cap: "length (connections p) \<le> poolSize p \<longrightarrow> length (connections ?w) \<le> poolSize p"
    using False unfolding ok(2) by (auto simp: connectionsToCreate_def)
  have "\<forall>r \<in> set (map (newIdle now) [nextConnection p ..< nextConnection p + ?k]). available ?w r"
    unfolding available_def ok(3) by (auto simp: newIdle_def)
  then have "filter (available ?w) (map (newIdle now) [nextConnection p ..< nextConnection p + ?k])
             = map (newIdle now) [nextConnection p ..< nextConnection p + ?k]"
    by (simp only: filter_True)
  then have "?k \<le> length (filter (available ?w) (connections ?w))"
    unfolding ok(2) by simp
  from acquireMany_hits [OF this, of later]
  have hits: "poolHits (metrics (acquireMany later ?k ?w)) = poolHits (metrics p) + ?k"
    and misses: "poolMisses (metrics (acquireMany later ?k ?w)) = poolMisses (metrics p)"
    unfolding ok(5) ok(6) by blast+
  show ?thesis
    using ok(1) ok(2) ok(4) False cap hits misses by blast
qed

text \<open>A pool of capacity 4 after one \<open>acquire\<close>: connection 0, in use.\<close>

definition oneInUse :: connectionPool where
  "oneInUse = snd (acquire 3 None (newPool 4 1000))"

lemma oneInUse_eval:
  "oneInUse =
     \<lparr>poolSize = 4, connectionTimeout = 1000,
      connections =
        [\<lparr>connection = 0, inUse = True, createdAt = 3, lastUsed = 3, healthCheckFailures = 0\<rparr>],
      metrics = \<lparr>activeConnections = 1, idleConnections = 0, totalCreated = 1,
                 poolHits = 0, poolMisses = 1, failedHealthChecks = 0\<rparr>,
      isConnected = (\<lambda>_. False)(0 := True), destroyed = [], nextConnection = 1,
      emitted = [ConnectionCreated 0]\<rparr>"
  by (simp add: oneInUse_def acquire_def newPool_def createConnection_def emit_def
      updateMetrics_def Let_def)

text \<open>
  C7 as stated fails: with one record in use, capacity 4 and \<open>warmUp 2\<close>, one
  connection is created, not \<open>min 2 4 = 2\<close>, and the second of two later calls of
  \<open>acquire\<close> is a miss.
\<close>

theorem warmUp_count_counterexample:
  "totalCreated (metrics (snd (warmUp 5 2 (\<lambda>c. None) oneInUse))) - totalCreated (metrics oneInUse)
     \<noteq> nat (min 2 (int (poolSize oneInUse)))
   \<and> poolMisses (metrics (acquireMany 9 2 (snd (warmUp 5 2 (\<lambda>c. None) oneInUse))))
     \<noteq> poolMisses (metrics (snd (warmUp 5 2 (\<lambda>c. None) oneInUse)))"
proof -
  have w: "snd (warmUp 5 2 (\<lambda>c. None) oneInUse) =
     \<lparr>poolSize = 4, connectionTimeout = 1000,
      connections =
        [\<lparr>connection = 0, inUse = True, createdAt = 3, lastUsed = 3, healthCheckFailures = 0\<rparr>,
         \<lparr>connection = 1, inUse = False, createdAt = 5, lastUsed = 5, healthCheckFailures = 0\<rparr>],
      metrics = \<lparr>activeConnections = 1, idleConnections = 1, totalCreated = 2,
                 poolHits = 0, poolMisses = 1, failedHealthChecks = 0\<rparr>,
      isConnected = (\<lambda>_. False)(0 := True, 1 := True), destroyed = [], nextConnection = 2,
      emitted = [ConnectionCreated 0, ConnectionCreated 1, ConnectionReleased 1,
                 PoolWarmedUp 2]\<rparr>"
    by (simp add: oneInUse_eval warmUp_def connectionsToCreate_def createConnection_def
        release_def wraps_def emit_def updateMetrics_def Let_def)
  have a: "acquireMany 9 2 (snd (warmUp 5 2 (\<lambda>c. None) oneInUse))
           = snd (acquire 9 None (snd (acquire 9 None (snd (warmUp 5 2 (\<lambda>c. None) oneInUse)))))"
    by (simp add: numeral_2_eq_2)
  show ?thesis
    unfolding a unfolding w
    by (simp add: oneInUse_eval acquire_def takeIdle_def available_def createConnection_def
        emit_def updateMetrics_def Let_def)
qed

theorem warmUp_creates_witness:
  "fst (warmUp 5 3 (\<lambda>c. None) oneInUse) = None
   \<and> connections (snd (warmUp 5 3 (\<lambda>c. None) oneInUse))
       = [\<lparr>connection = 0, inUse = True, createdAt = 3, lastUsed = 3, healthCheckFailures = 0\<rparr>,
          \<lparr>connection = 1, inUse = False, createdAt = 5, lastUsed = 5, healthCheckFailures = 0\<rparr>,
          \<lparr>connection = 2, inUse = False, createdAt = 5, lastUsed = 5, healthCheckFailures = 0\<rparr>]
   \<and> totalCreated (metrics (snd (warmUp 5 3 (\<lambda>c. None) oneInUse))) = 3
   \<and> snd (warmUp 5 1 (\<lambda>c. None) oneInUse) = oneInUse
   \<and> poolHits (metrics (acquireMany 9 2 (snd (warmUp 5 3 (\<lambda>c. None) oneInUse)))) = 2
   \<and> poolMisses (metrics (acquireMany 9 2 (snd (warmUp 5 3 (\<lambda>c. None) oneInUse)))) = 1"
proof -
  have w: "wellFormed oneInUse"
    by (simp add: wellFormed_def oneInUse_eval)
  have a: "\<forall>c. (\<lambda>c::nat. None :: error option) c = None" by simp
  have k3: "connectionsToCreate 3 oneInUse = 2" and k1: "connectionsToCreate 1 oneInUse = 0"
    by (simp_all add: connectionsToCreate_def oneInUse_eval)
  have c: "connections oneInUse
           = [\<lparr>connection = 0, inUse = True, createdAt = 3, lastUsed = 3, healthCheckFailures = 0\<rparr>]"
    and n: "nextConnection oneInUse = 1" and t: "totalCreated (metrics oneInUse) = 1"
    and h: "poolHits (metrics oneInUse) = 0" and m: "poolMisses (metrics oneInUse) = 1"
    by (simp_all add: oneInUse_eval)
  have u: "[1 ..< 3] = [1, 2 :: nat]" by (simp add: upt_conv_Cons)
  note t3 = warmUp_creates [OF w a, of 5 3 9, unfolded k3 c n t h m]
  note t1 = warmUp_creates [OF w a, of 5 1 9, unfolded k1]
  have "snd (warmUp 5 1 (\<lambda>c. None) oneInUse) = oneInUse"
    using t1 by simp
  then show ?thesis
    using t3 by (simp add: u newIdle_def)
qed

section \<open>Pipeline executor (pipeline.ts and the compiled lib/pipeline.js)\<close>

text \<open>
  A \<open>PipelineCommand\<close>; arguments are kept as bytes. A \<open>PipelineResponse\<close> is a success
  with its value or a failure with its error message; the data of a stats response (a
  parsed object or a string in the source) is kept as bytes.
\<close>

record pipelineCommand =
  command :: string
  args :: "buffer list"

datatype crabCacheValue = Text string | Bytes buffer | Null | StatsData buffer

datatype pipelineResponse = Succeeded crabCacheValue | Failed string

text \<open>
  What a \<open>ProtocolDecoder\<close> function returns: an object with a \<open>type\<close>, and \<open>data\<close> or a
  \<open>message\<close> for some types.
\<close>

record decoded =
  type :: string
  data :: buffer
  message :: string

text \<open>
  The fields of \<open>CrabCachePipeline\<close>, with a log of the calls of
  \<open>connection.sendPipelineCommands\<close>.
\<close>

record crabCachePipeline =
  commands :: "pipelineCommand list"
  sentBatches :: "buffer list list"

definition newPipeline :: crabCachePipeline where
  "newPipeline = \<lparr>commands = [], sentBatches = []\<rparr>"

definition ping :: "crabCachePipeline \<Rightarrow> crabCachePipeline" where
  "ping pl = pl\<lparr>commands := commands pl @ [\<lparr>command = ''PING'', args = []\<rparr>]\<rparr>"

definition get :: "buffer \<Rightarrow> crabCachePipeline \<Rightarrow> crabCachePipeline" where
  "get key pl = pl\<lparr>commands := commands pl @ [\<lparr>command = ''GET'', args = [key]\<rparr>]\<rparr>"

definition clear :: "crabCachePipeline \<Rightarrow> crabCachePipeline" where
  "clear pl = pl\<lparr>commands := []\<rparr>"

definition convertToResponse :: "decoded \<Rightarrow> pipelineResponse" where
  "convertToResponse d =
     (if type d = ''ok'' then Succeeded (Text ''OK'')
      else if type d = ''pong'' then Succeeded (Text ''PONG'')
      else if type d = ''null'' then Succeeded Null
      else if type d = ''value'' then Succeeded (Bytes (data d))
      else if type d = ''stats'' then Succeeded (StatsData (data d))
      else if type d = ''error'' then Failed (message d)
      else Failed ''Unknown response type'')"

text \<open>\<open>commands.map(encode)\<close>: the first command whose encoding throws ends the map.\<close>

fun encodeAll ::
    "(pipelineCommand \<Rightarrow> error + buffer) \<Rightarrow> pipelineCommand list \<Rightarrow> error + buffer list" where
  "encodeAll encode [] = Inr []"
| "encodeAll encode (cmd # cmds) =
     (case encode cmd of
        Inl e \<Rightarrow> Inl e
      | Inr b \<Rightarrow> (case encodeAll encode cmds of Inl e \<Rightarrow> Inl e | Inr bs \<Rightarrow> Inr (b # bs)))"

text \<open>The body of the \<open>for\<close> loop of \<open>execute\<close>: the inner \<open>try\<close> and its \<open>catch\<close>.\<close>

definition decodeResponse :: "(buffer \<Rightarrow> error + decoded) \<Rightarrow> buffer \<Rightarrow> pipelineResponse" where
  "decodeResponse decode response =
     (case decode response of
        Inr d \<Rightarrow> convertToResponse d
      | Inl (Error msg) \<Rightarrow> Failed msg)"

text \<open>
  The outer \<open>try\<close> of \<open>execute\<close> with its \<open>catch\<close>, the same text in pipeline.ts and in
  lib/pipeline.js. The encoder and the decoder that \<open>useBinaryProtocol\<close> selects are the
  parameters \<open>encode\<close> and \<open>decode\<close>; \<open>sendResult\<close> is how the promise of
  \<open>sendPipelineCommands\<close> settles, \<open>Inl\<close> when it rejects. The result is \<open>Inl\<close> when
  the block throws; the command list is cleared before the \<open>return\<close> and in the \<open>catch\<close>.
\<close>

definition tryBlock ::
    "(pipelineCommand \<Rightarrow> error + buffer) \<Rightarrow> (buffer \<Rightarrow> error + decoded) \<Rightarrow>
     (error + buffer list) \<Rightarrow> crabCachePipeline \<Rightarrow>
     (error + pipelineResponse list) \<times> crabCachePipeline" where
  "tryBlock encode decode sendResult pl =
     (case encodeAll encode (commands pl) of
        Inl e \<Rightarrow> (Inl e, clear pl)
      | Inr encodedCommands \<Rightarrow>
          (let pl1 = pl\<lparr>sentBatches := sentBatches pl @ [encodedCommands]\<rparr> in
           case sendResult of
             Inl e \<Rightarrow> (Inl e, clear pl1)
           | Inr responses \<Rightarrow> (Inr (map (decodeResponse decode) responses), clear pl1)))"

text \<open>
  \<open>execute\<close> of pipeline.ts (src/unnamed/part_014): the pipeline holds a connection and
  the \<open>try\<close> follows the test for an empty list at once.
\<close>

definition execute ::
    "(pipelineCommand \<Rightarrow> error + buffer) \<Rightarrow> (buffer \<Rightarrow> error + decoded) \<Rightarrow>
     (error + buffer list) \<Rightarrow> crabCachePipeline \<Rightarrow>
     (error + pipelineResponse list) \<times> crabCachePipeline" where
  "execute encode decode sendResult pl =
     (if commands pl = [] then (Inr [], pl)
      else tryBlock encode decode sendResult pl)"

text \<open>
  \<open>execute\<close> of the compiled lib/pipeline.js (src/unnamed/part_005), the copy that the
  client of lib/ calls. There \<open>this.connection\<close> is a pool when it has an \<open>acquire\<close>
  method (the client passes its pool) and a connection otherwise. For a pool the
  parameter says how the promise of \<open>acquire()\<close> settles: \<open>Inl\<close> when it rejects, the
  connection otherwise. The \<open>await\<close> of \<open>acquire()\<close> stands before the \<open>try\<close>, so its
  rejection leaves \<open>execute\<close> outside the \<open>catch\<close> and the \<open>finally\<close>. The third component
  of the result lists the connections given back with \<open>release\<close> in the \<open>finally\<close>.
\<close>

datatype pipelineConnection = Pool "error + nat" | Connection nat

definition executeCompiled ::
    "(pipelineCommand \<Rightarrow> error + buffer) \<Rightarrow> (buffer \<Rightarrow> error + decoded) \<Rightarrow>
     pipelineConnection \<Rightarrow> (error + buffer list) \<Rightarrow> crabCachePipeline \<Rightarrow>
     (error + pipelineResponse list) \<times> crabCachePipeline \<times> nat list" where
  "executeCompiled encode decode conn sendResult pl =
     (if commands pl = [] then (Inr [], pl, [])
      else
        (case conn of
           Pool (Inl e) \<Rightarrow> (Inl e, pl, [])
         | Pool (Inr actualConnection) \<Rightarrow>
             (case tryBlock encode decode sendResult pl of
                (result, pl1) \<Rightarrow> (result, pl1, [actualConnection]))
         | Connection actualConnection \<Rightarrow>
             (case tryBlock encode decode sendResult pl of
                (result, pl1) \<Rightarrow> (result, pl1, []))))"

subsection \<open>The binary decoder (src/src/protocol.ts)\<close>

unbundle bit_operations_syntax

text \<open>
  \<open>decodeVarint\<close>: the bitwise operators of JavaScript work on 32-bit integers, and the
  result is read as a signed one.
\<close>

fun decodeVarintFrom :: "buffer \<Rightarrow> 32 word \<Rightarrow> nat \<Rightarrow> nat \<Rightarrow> error + (int \<times> nat)" where
  "decodeVarintFrom [] result shift bytesRead = Inr (sint result, bytesRead)"
| "decodeVarintFrom (b # bs) result shift bytesRead =
     (let result1 = result OR push_bit shift (ucast (b AND 0x7F)) in
      if b AND 0x80 = 0 then Inr (sint result1, bytesRead + 1)
      else if shift + 7 \<ge> 32 then Inl (Error ''Varint too long'')
      else decodeVarintFrom bs result1 (shift + 7) (bytesRead + 1))"

definition decodeVarint :: "buffer \<Rightarrow> error + (int \<times> nat)" where
  "decodeVarint bytes = decodeVarintFrom bytes 0 0 0"

text \<open>\<open>Buffer.slice(start, end)\<close>: a negative index counts from the end, both are clamped.\<close>

definition sliceIndex :: "buffer \<Rightarrow> int \<Rightarrow> nat" where
  "sliceIndex buf i =
     (if i < 0 then nat (max 0 (int (length buf) + i)) else min (nat i) (length buf))"

definition slice :: "buffer \<Rightarrow> int \<Rightarrow> int \<Rightarrow> buffer" where
  "slice buf start end =
     take (sliceIndex buf end - sliceIndex buf start) (drop (sliceIndex buf start) buf)"

text \<open>\<open>Buffer.toString()\<close>, one character for each byte.\<close>

definition toString :: "buffer \<Rightarrow> string" where
  "toString buf = map (\<lambda>b. char_of (unat b)) buf"

fun decimal :: "nat \<Rightarrow> string" where
  "decimal n =
     (if n < 10 then [''0123456789'' ! n]
      else decimal (n div 10) @ [''0123456789'' ! (n mod 10)])"

declare decimal.simps [simp del]

definition lengthPrefixed :: "buffer \<Rightarrow> error + buffer" where
  "lengthPrefixed bytes =
     (case decodeVarint (drop 1 bytes) of
        Inl e \<Rightarrow> Inl e
      | Inr (len, lenBytes) \<Rightarrow>
          Inr (slice bytes (1 + int lenBytes) (1 + int lenBytes + len)))"

definition decodeBinaryResponse :: "buffer \<Rightarrow> error + decoded" where
  "decodeBinaryResponse bytes =
     (if bytes = [] then Inl (Error ''Empty binary response'')
      else
        (let responseType = hd bytes in
         if responseType = 0x10 then Inr \<lparr>type = ''ok'', data = [], message = []\<rparr>
         else if responseType = 0x11 then Inr \<lparr>type = ''pong'', data = [], message = []\<rparr>
         else if responseType = 0x12 then Inr \<lparr>type = ''null'', data = [], message = []\<rparr>
         else if responseType = 0x13 then
           (case lengthPrefixed bytes of
              Inl e \<Rightarrow> Inl e
            | Inr payload \<Rightarrow> Inr \<lparr>type = ''error'', data = [], message = toString payload\<rparr>)
         else if responseType = 0x14 then
           (case lengthPrefixed bytes of
              Inl e \<Rightarrow> Inl e
            | Inr payload \<Rightarrow> Inr \<lparr>type = ''value'', data = payload, message = []\<rparr>)
         else if responseType = 0x15 then
           (case lengthPrefixed bytes of
              Inl e \<Rightarrow> Inl e
            | Inr payload \<Rightarrow> Inr \<lparr>type = ''stats'', data = payload, message = []\<rparr>)
         else Inl (Error (''Unknown binary response type: '' @ decimal (unat responseType)))))"

subsection \<open>The outcomes of execute\<close>

text \<open>
  The copy of pipeline.ts. With no command, \<open>execute\<close> returns the empty list and leaves
  the pipeline as it was, so nothing is sent. When the commands are encoded and sent in one batch and the
  raw responses come back, there are as many results as responses and the result in slot
  i depends on response i alone: the error message of its decoding when that throws, the
  converted response otherwise. When the encoding throws or the send is rejected,
  \<open>execute\<close> throws that error. In every case the command list is empty afterwards.
\<close>

lemma execute_outcomes:
  "(commands pl = [] \<longrightarrow> execute encode decode sendResult pl = (Inr [], pl))
   \<and> (\<forall>encoded responses.
         commands pl \<noteq> [] \<and> encodeAll encode (commands pl) = Inr encoded
         \<and> sendResult = Inr responses \<longrightarrow>
           (\<exists>results.
              fst (execute encode decode sendResult pl) = Inr results
            \<and> length results = length responses
            \<and> (\<forall>i < length responses.
                  results ! i =
                    (case decode (responses ! i) of
                       Inl (Error msg) \<Rightarrow> Failed msg
                     | Inr d \<Rightarrow> convertToResponse d)))
         \<and> sentBatches (snd (execute encode decode sendResult pl)) = sentBatches pl @ [encoded])
   \<and> (\<forall>e. commands pl \<noteq> [] \<and> (encodeAll encode (commands pl) = Inl e \<or> sendResult = Inl e
              \<and> (\<exists>encoded. encodeAll encode (commands pl) = Inr encoded))
         \<longrightarrow> fst (execute encode decode sendResult pl) = Inl e)
   \<and> commands (snd (execute encode decode sendResult pl)) = []"
proof (intro conjI allI impI)
  assume "commands pl = []"
  then show "execute encode decode sendResult pl = (Inr [], pl)"
    by (simp add: execute_def tryBlock_def)
next
  fix encoded responses
  assume h: "commands pl \<noteq> [] \<and> encodeAll encode (commands pl) = Inr encoded
             \<and> sendResult = Inr responses"
  then have e: "execute encode decode sendResult pl
                = (Inr (map (decodeResponse decode) responses),
                   clear (pl\<lparr>sentBatches := sentBatches pl @ [encoded]\<rparr>))"
    by (simp add: execute_def tryBlock_def)
  have "\<forall>i < length responses.
          map (decodeResponse decode) responses ! i =
            (case decode (responses ! i) of
               Inl (Error msg) \<Rightarrow> Failed msg
             | Inr d \<Rightarrow> convertToResponse d)"
    by (simp add: decodeResponse_def)
  then show "\<exists>results.
              fst (execute encode decode sendResult pl) = Inr results
            \<and> length results = length responses
            \<and> (\<forall>i < length responses.
                  results ! i =
                    (case decode (responses ! i) of
                       Inl (Error msg) \<Rightarrow> Failed msg
                     | Inr d \<Rightarrow> convertToResponse d))"
    unfolding e by (intro exI [of _ "map (decodeResponse decode) responses"]) simp
  show "sentBatches (snd (execute encode decode sendResult pl)) = sentBatches pl @ [encoded]"
    by (simp add: e clear_def)
next
  fix e
  assume "commands pl \<noteq> [] \<and> (encodeAll encode (commands pl) = Inl e \<or> sendResult = Inl e
              \<and> (\<exists>encoded. encodeAll encode (commands pl) = Inr encoded))"
  then show "fst (execute encode decode sendResult pl) = Inl e"
    by (auto simp: execute_def tryBlock_def Let_def)
next
  show "commands (snd (execute encode decode sendResult pl)) = []"
    by (simp add: execute_def tryBlock_def clear_def Let_def split: sum.splits)
qed

text \<open>Three PING commands, and an encoder that knows the PING command of the binary protocol.\<close>

definition threePings :: crabCachePipeline where
  "threePings = ping (ping (ping newPipeline))"

definition encodePing :: "pipelineCommand \<Rightarrow> error + buffer" where
  "encodePing cmd =
     (if command cmd = ''PING'' then Inr [0x01] else Inl (Error ''Unknown command''))"

lemma execute_outcomes_example:
  "execute encodePing decodeBinaryResponse (Inr []) newPipeline = (Inr [], newPipeline)
   \<and> fst (execute encodePing decodeBinaryResponse (Inr [[0x11], [0x99], [0x12]]) threePings)
       = Inr [Succeeded (Text ''PONG''), Failed ''Unknown binary response type: 153'',
              Succeeded Null]
   \<and> sentBatches (snd (execute encodePing decodeBinaryResponse (Inr [[0x11], [0x99], [0x12]])
                          threePings))
       = [[[0x01], [0x01], [0x01]]]
   \<and> fst (execute encodePing decodeBinaryResponse (Inl (Error ''Connection closed'')) threePings)
       = Inl (Error ''Connection closed'')
   \<and> commands (snd (execute encodePing decodeBinaryResponse (Inl (Error ''Connection closed''))
                       threePings)) = []"
proof -
  let ?rs = "[[0x11], [0x99], [0x12]] :: buffer list"
  let ?ok = "execute encodePing decodeBinaryResponse (Inr ?rs) threePings"
  have c: "commands threePings \<noteq> []" and n: "commands newPipeline = []"
    and s: "sentBatches threePings = []"
    by (simp_all add: threePings_def ping_def newPipeline_def)
  have en: "encodeAll encodePing (commands threePings) = Inr [[0x01], [0x01], [0x01]]"
    by (simp add: threePings_def ping_def newPipeline_def encodePing_def)
  have d0: "decodeBinaryResponse [0x11] = Inr \<lparr>type = ''pong'', data = [], message = []\<rparr>"
    and d1: "decodeBinaryResponse [0x99] = Inl (Error ''Unknown binary response type: 153'')"
    and d2: "decodeBinaryResponse [0x12] = Inr \<lparr>type = ''null'', data = [], message = []\<rparr>"
    by (simp_all add: decodeBinaryResponse_def decimal.simps)
  note t = execute_outcomes [of threePings encodePing decodeBinaryResponse "Inr ?rs"]
  have h: "commands threePings \<noteq> [] \<and> encodeAll encodePing (commands threePings)
             = Inr [[0x01], [0x01], [0x01]] \<and> (Inr ?rs :: error + buffer list) = Inr ?rs"
    using c en by simp
  from t [THEN conjunct2, THEN conjunct1, rule_format, OF h]
  obtain results where r: "fst ?ok = Inr results" and l: "length results = 3"
    and a: "\<forall>i < 3. results ! i =
              (case decodeBinaryResponse (?rs ! i) of
                 Inl (Error msg) \<Rightarrow> Failed msg
               | Inr d \<Rightarrow> convertToResponse d)"
    and sb: "sentBatches (snd ?ok) = [[[0x01], [0x01], [0x01]]]"
    by (auto simp: s)
  have "results ! 0 = Succeeded (Text ''PONG'')"
    using a [rule_format, of 0] by (simp add: d0 convertToResponse_def)
  moreover have "results ! 1 = Failed ''Unknown binary response type: 153''"
    using a [rule_format, of 1] by (simp add: d1)
  moreover have "results ! 2 = Succeeded Null"
    using a [rule_format, of 2] by (simp add: d2 convertToResponse_def)
  ultimately have res: "results = [Succeeded (Text ''PONG''),
      Failed ''Unknown binary response type: 153'', Succeeded Null]"
    using l by (intro nth_equalityI) (auto simp: less_Suc_eq numeral_3_eq_3 numeral_2_eq_2)
  have e1: "execute encodePing decodeBinaryResponse (Inr []) newPipeline = (Inr [], newPipeline)"
    using execute_outcomes [of newPipeline encodePing decodeBinaryResponse "Inr []",
        THEN conjunct1] n by simp
  let ?bad = "execute encodePing decodeBinaryResponse (Inl (Error ''Connection closed'')) threePings"
  note u = execute_outcomes [of threePings encodePing decodeBinaryResponse
      "Inl (Error ''Connection closed'')"]
  have e3: "fst ?bad = Inl (Error ''Connection closed'')"
    using u [THEN conjunct2, THEN conjunct2, THEN conjunct1, rule_format,
        of "Error ''Connection closed''"] c en by simp
  have e4: "commands (snd ?bad) = []"
    using u by blast
  show ?thesis
    using e1 r res sb e3 e4 by simp
qed

subsection \<open>The compiled copy and a pool that gives no connection\<close>

text \<open>
  With a connection in hand (acquired from the pool, or the pipeline's own) the compiled
  copy returns or throws what the copy of pipeline.ts does and leaves the same pipeline,
  so the command list is empty afterwards; a connection acquired from the pool is
  released once, on the return and on the throw.
\<close>

lemma executeCompiled_with_connection:
  "executeCompiled encode decode (Pool (Inr a)) sendResult pl
     = (fst (execute encode decode sendResult pl), snd (execute encode decode sendResult pl),
        if commands pl = [] then [] else [a])"
  "executeCompiled encode decode (Connection a) sendResult pl
     = (fst (execute encode decode sendResult pl), snd (execute encode decode sendResult pl), [])"
  by (simp_all add: executeCompiled_def execute_def split: prod.splits)

lemma executeCompiled_clears:
  assumes "\<And>e. conn \<noteq> Pool (Inl e)"
  shows "commands (fst (snd (executeCompiled encode decode conn sendResult pl))) = []"
proof (cases conn)
  case (Pool r)
  then obtain a where "conn = Pool (Inr a)"
    using assms by (cases r) auto
  then show ?thesis
    using execute_outcomes [of pl encode decode sendResult]
    by (simp add: executeCompiled_with_connection)
next
  case (Connection a)
  then show ?thesis
    using execute_outcomes [of pl encode decode sendResult]
    by (simp add: executeCompiled_with_connection)
qed

text \<open>When \<open>acquire()\<close> rejects, a pipeline with commands throws that error and is unchanged.\<close>

lemma executeCompiled_acquire_rejected:
  "commands pl \<noteq> [] \<Longrightarrow>
     executeCompiled encode decode (Pool (Inl e)) sendResult pl = (Inl e, pl, [])"
  by (simp add: executeCompiled_def)

text \<open>
  C8 fails for the compiled copy. A pool of size 2 has both connections in use and none
  is released, so \<open>acquire()\<close> rejects with \<open>Pool acquisition timeout\<close> after the
  connection timeout. A pipeline of three PING commands over that pool throws this
  error from \<open>execute\<close>, sends nothing, releases nothing, and still holds its three
  commands afterwards, where the comment of the \<open>catch\<close> says that the commands are
  cleared also in case of an error. The copy of pipeline.ts, whose \<open>try\<close> holds every
  step that can throw, ends with an empty command list when its send is rejected.
\<close>

theorem acquire_rejection_keeps_commands:
  "fst (waitForConnection 1000 12 0 (\<lambda>t. twoInUse)) = Thrown (Error ''Pool acquisition timeout'')
   \<and> executeCompiled encodePing decodeBinaryResponse
        (Pool (Inl (Error ''Pool acquisition timeout''))) (Inr [[0x11], [0x11], [0x11]]) threePings
       = (Inl (Error ''Pool acquisition timeout''), threePings, [])
   \<and> commands threePings
       = [\<lparr>command = ''PING'', args = []\<rparr>, \<lparr>command = ''PING'', args = []\<rparr>,
          \<lparr>command = ''PING'', args = []\<rparr>]
   \<and> sentBatches threePings = []
   \<and> commands (snd (execute encodePing decodeBinaryResponse
                       (Inl (Error ''Pool acquisition timeout'')) threePings)) = []"
proof -
  have n: "find (available twoInUse) (connections twoInUse) = None"
    by (simp add: twoInUse_eval available_def)
  have w: "fst (waitForConnection 1000 12 0 (\<lambda>t. twoInUse))
             = Thrown (Error ''Pool acquisition timeout'')"
    by (rule wait_times_out) (simp_all add: n)
  have c: "commands threePings
             = [\<lparr>command = ''PING'', args = []\<rparr>, \<lparr>command = ''PING'', args = []\<rparr>,
                \<lparr>command = ''PING'', args = []\<rparr>]"
    and s: "sentBatches threePings = []"
    by (simp_all add: threePings_def ping_def newPipeline_def)
  have x: "executeCompiled encodePing decodeBinaryResponse
             (Pool (Inl (Error ''Pool acquisition timeout''))) (Inr [[0x11], [0x11], [0x11]])
             threePings
           = (Inl (Error ''Pool acquisition timeout''), threePings, [])"
    by (rule executeCompiled_acquire_rejected) (simp add: c)
  have t: "commands (snd (execute encodePing decodeBinaryResponse
                            (Inl (Error ''Pool acquisition timeout'')) threePings)) = []"
    using execute_outcomes [of threePings encodePing decodeBinaryResponse
        "Inl (Error ''Pool acquisition timeout'')"] by blast
  show ?thesis
    using w x c s t by simp
qed

section \<open>Cluster statistics (getClusterStats of the client)\<close>

text \<open>\<open>CrabCacheStats\<close>; the numbers of JavaScript are taken as real numbers.\<close>

record crabCacheStats =
  total_operations :: real
  get_operations :: real
  put_operations :: real
  del_operations :: real
  cache_hits :: real
  cache_misses :: real
  hit_ratio :: real
  memory_usage :: real
  active_connections :: real
  uptime_seconds :: real

record clusterStats = crabCacheStats +
  cluster_nodes :: real
  cluster_active_nodes :: real
  cluster_throughput :: real
  cluster_load_balance_efficiency :: real
  cluster_fault_tolerance_rate :: real
  cluster_network_latency_p99_ms :: real

text \<open>The callback and the initial value of \<open>nodeStats.reduce\<close>.\<close>

definition mergeStats :: "crabCacheStats \<Rightarrow> crabCacheStats \<Rightarrow> crabCacheStats" where
  "mergeStats acc stats =
     \<lparr>total_operations = total_operations acc + total_operations stats,
      get_operations = get_operations acc + get_operations stats,
      put_operations = put_operations acc + put_operations stats,
      del_operations = del_operations acc + del_operations stats,
      cache_hits = cache_hits acc + cache_hits stats,
      cache_misses = cache_misses acc + cache_misses stats,
      hit_ratio = (hit_ratio acc + hit_ratio stats) / 2,
      memory_usage = memory_usage acc + memory_usage stats,
      active_connections = active_connections acc + active_connections stats,
      uptime_seconds = max (uptime_seconds acc) (uptime_seconds stats)\<rparr>"

definition zeroStats :: crabCacheStats where
  "zeroStats =
     \<lparr>total_operations = 0, get_operations = 0, put_operations = 0, del_operations = 0,
      cache_hits = 0, cache_misses = 0, hit_ratio = 0, memory_usage = 0,
      active_connections = 0, uptime_seconds = 0\<rparr>"

definition aggregated :: "crabCacheStats list \<Rightarrow> crabCacheStats" where
  "aggregated nodeStats = foldl mergeStats zeroStats nodeStats"

text \<open>
  The object that \<open>getClusterStats\<close> returns, from the statistics gathered from the
  active nodes, the numbers of active and of known nodes, the client metrics
  (\<open>loadBalancingEfficiency\<close> may be missing) and the date in milliseconds.
\<close>

definition getClusterStats ::
    "crabCacheStats list \<Rightarrow> nat \<Rightarrow> nat \<Rightarrow> real \<Rightarrow> real option \<Rightarrow> real \<Rightarrow> real \<Rightarrow> clusterStats" where
  "getClusterStats nodeStats activeNodes clusterNodes totalRequests loadBalancingEfficiency
       averageLatency now =
     crabCacheStats.extend (aggregated nodeStats)
       (clusterStats.fields (real clusterNodes) (real activeNodes)
          (totalRequests / (now / 1000))
          (case loadBalancingEfficiency of None \<Rightarrow> 0 | Some x \<Rightarrow> x)
          (real activeNodes / real clusterNodes)
          averageLatency)"

text \<open>The arithmetic mean of the hit ratios of the nodes.\<close>

definition meanHitRatio :: "crabCacheStats list \<Rightarrow> real" where
  "meanHitRatio nodeStats = sum_list (map hit_ratio nodeStats) / real (length nodeStats)"

text \<open>The counters are summed and the uptime is the maximum (with 0).\<close>

lemma foldl_mergeStats_sums:
  "total_operations (foldl mergeStats acc xs)
     = total_operations acc + sum_list (map total_operations xs)"
  "get_operations (foldl mergeStats acc xs) = get_operations acc + sum_list (map get_operations xs)"
  "put_operations (foldl mergeStats acc xs) = put_operations acc + sum_list (map put_operations xs)"
  "del_operations (foldl mergeStats acc xs) = del_operations acc + sum_list (map del_operations xs)"
  "cache_hits (foldl mergeStats acc xs) = cache_hits acc + sum_list (map cache_hits xs)"
  "cache_misses (foldl mergeStats acc xs) = cache_misses acc + sum_list (map cache_misses xs)"
  "memory_usage (foldl mergeStats acc xs) = memory_usage acc + sum_list (map memory_usage xs)"
  "active_connections (foldl mergeStats acc xs)
     = active_connections acc + sum_list (map active_connections xs)"
  "uptime_seconds (foldl mergeStats acc xs)
     = fold max (map uptime_seconds xs) (uptime_seconds acc)"
  by (induction xs arbitrary: acc; simp add: mergeStats_def max.commute)+

text \<open>
  The hit ratio is halved at every node, starting from 0: a single node's ratio comes out
  halved, and the first of two nodes counts a quarter.
\<close>

lemma hit_ratio_halved:
  "hit_ratio (aggregated [a]) = hit_ratio a / 2"
  "hit_ratio (aggregated [a, b]) = hit_ratio a / 4 + hit_ratio b / 2"
  by (simp_all add: aggregated_def mergeStats_def zeroStats_def field_simps)

text \<open>The statistics of two nodes, with hit ratios 0.5 and 1.\<close>

definition nodeA :: crabCacheStats where
  "nodeA =
     \<lparr>total_operations = 10, get_operations = 6, put_operations = 3, del_operations = 1,
      cache_hits = 3, cache_misses = 3, hit_ratio = 1 / 2, memory_usage = 100,
      active_connections = 2, uptime_seconds = 50\<rparr>"

definition nodeB :: crabCacheStats where
  "nodeB =
     \<lparr>total_operations = 30, get_operations = 20, put_operations = 8, del_operations = 2,
      cache_hits = 20, cache_misses = 0, hit_ratio = 1, memory_usage = 300,
      active_connections = 4, uptime_seconds = 20\<rparr>"

text \<open>
  C9 at the nodes \<open>nodeA\<close> and \<open>nodeB\<close>. The counters are summed, the uptime is the
  maximum and the fault-tolerance rate is active over known nodes, but the hit ratio of
  the result is 0.625 where the mean of 0.5 and 1 is 0.75, and for \<open>nodeA\<close> alone it is
  0.25 where the mean is 0.5.
\<close>

theorem hit_ratio_is_not_the_mean:
  "hit_ratio (getClusterStats [nodeA, nodeB] 2 2 0 None 0 1000) = 5 / 8
   \<and> meanHitRatio [nodeA, nodeB] = 3 / 4
   \<and> hit_ratio (getClusterStats [nodeA] 1 2 0 None 0 1000) = 1 / 4
   \<and> meanHitRatio [nodeA] = 1 / 2
   \<and> total_operations (getClusterStats [nodeA, nodeB] 2 2 0 None 0 1000) = 40
   \<and> uptime_seconds (getClusterStats [nodeA, nodeB] 2 2 0 None 0 1000) = 50
   \<and> cluster_fault_tolerance_rate (getClusterStats [nodeA] 1 2 0 None 0 1000) = 1 / 2"
  by (simp add: getClusterStats_def aggregated_def mergeStats_def zeroStats_def nodeA_def
      nodeB_def meanHitRatio_def crabCacheStats.defs clusterStats.defs)

end
